theory Spec2Isabelle
  imports Complex_Main "HOL-Library.Word" "HOL-Library.Sublist" "HOL-Library.AList"
begin

unbundle bit_operations_syntax

section \<open>The UQRC engine of mind-garden-js\<close>

text \<open>
  A shallow embedding of the TypeScript engine under \<^verbatim>\<open>src/lib/uqrc\<close>: the memory
  store, the spectral weight engine, the operator engine, the geometric graph engine, the
  stability filter, the response selector and the facade \<^verbatim>\<open>UQRC_LLM\<close>.

  Conventions of the model.
  \<^item> A JavaScript \<^verbatim>\<open>number\<close> is a real number: rounding, infinities and NaN are not
    modelled. Where the source can divide by zero the model writes the case out.
  \<^item> A JavaScript string is a list of 8-bit code units (the Latin-1 range of UTF-16);
    \<^verbatim>\<open>toLowerCase\<close>, \<^verbatim>\<open>trim\<close> and the regular expression class \<^verbatim>\<open>\s\<close> are
    modelled on that range.
  \<^item> Node objects are shared by reference in the source (a node returned by
    \<^verbatim>\<open>createNode\<close> is the object stored in the map). The model keeps the objects in a
    heap, a list indexed by address, and the map \<^verbatim>\<open>nodes\<close> holds addresses in insertion
    order, as a JavaScript \<^verbatim>\<open>Map\<close> does.
  \<^item> \<^verbatim>\<open>Date.now()\<close> reads an arbitrary clock: the store carries a function from the
    number of reads made so far to the time read.
  \<^item> Persistence to \<^verbatim>\<open>localStorage\<close> does not change the state in memory and is left
    out.
\<close>

subsection \<open>Strings of the host language\<close>

text \<open>White space of \<^verbatim>\<open>trim\<close> and \<^verbatim>\<open>\s\<close> below code unit 256: TAB, LF, VT, FF, CR,
  SPACE and NBSP.\<close>

definition isWhitespace :: "char \<Rightarrow> bool" where
  "isWhitespace c = (of_char c \<in> {9, 10, 11, 12, 13, 32, 160 :: nat})"

text \<open>The code units that \<^verbatim>\<open>toLowerCase\<close> changes: A-Z and the Latin-1 capitals
  0xC0-0xDE without the multiplication sign 0xD7. Each moves up by 32, which sets bit 5.\<close>

definition isUpper :: "char \<Rightarrow> bool" where
  "isUpper c = (let n = of_char c :: nat in
     (65 \<le> n \<and> n \<le> 90) \<or> (192 \<le> n \<and> n \<le> 222 \<and> n \<noteq> 215))"

definition lowerChar :: "char \<Rightarrow> char" where
  "lowerChar c = (if isUpper c
     then (case c of Char b0 b1 b2 b3 b4 b5 b6 b7 \<Rightarrow> Char b0 b1 b2 b3 b4 True b6 b7)
     else c)"

definition toLowerCase :: "string \<Rightarrow> string" where
  "toLowerCase s = map lowerChar s"

definition trim :: "string \<Rightarrow> string" where
  "trim s = rev (dropWhile isWhitespace (rev (dropWhile isWhitespace s)))"

text \<open>\<^verbatim>\<open>hay.includes(needle)\<close>: the needle occurs as a contiguous part of the hay.\<close>

fun str_includes :: "string \<Rightarrow> string \<Rightarrow> bool" where
  "str_includes [] needle = (needle = [])"
| "str_includes (h # hs) needle = (prefix needle (h # hs) \<or> str_includes hs needle)"

text \<open>\<^verbatim>\<open>s.replace(/\s+/g, '_')\<close>: every maximal run of white space becomes one
  underscore.\<close>

function replace_ws :: "string \<Rightarrow> string" where
  "replace_ws [] = []"
| "replace_ws (c # cs) =
     (if isWhitespace c then CHR ''_'' # replace_ws (dropWhile isWhitespace cs)
      else c # replace_ws cs)"
  by pat_completeness auto
termination
  by (relation "measure length") (auto simp: length_dropWhile_le less_Suc_eq_le)

text \<open>\<^verbatim>\<open>s.split(/\s+/)\<close>: the pieces between the maximal runs of white space, the
  empty pieces at both ends included; the first argument is the piece being read.\<close>

function split_ws_from :: "string \<Rightarrow> string \<Rightarrow> string list" where
  "split_ws_from cur [] = [cur]"
| "split_ws_from cur (c # cs) =
     (if isWhitespace c then cur # split_ws_from [] (dropWhile isWhitespace cs)
      else split_ws_from (cur @ [c]) cs)"
  by pat_completeness auto
termination
  by (relation "measure (\<lambda>(cur, s). length s)") (auto simp: length_dropWhile_le less_Suc_eq_le)

definition split_ws :: "string \<Rightarrow> string list" where
  "split_ws s = split_ws_from [] s"

text \<open>\<^verbatim>\<open>words.join(' ')\<close>.\<close>

fun join_space :: "string list \<Rightarrow> string" where
  "join_space [] = []"
| "join_space [w] = w"
| "join_space (w # v # ws) = w @ CHR '' '' # join_space (v # ws)"

text \<open>The decimal digits of a time stamp inside a template string.\<close>

fun digits :: "nat \<Rightarrow> string" where
  "digits n = (if n < 10 then [''0123456789'' ! n]
     else digits (n div 10) @ [''0123456789'' ! (n mod 10)])"

declare digits.simps [simp del]

text \<open>\<^verbatim>\<open>xs.slice(-n)\<close>: the start index is \<open>max (length + (-n)) 0\<close>.\<close>

definition slice_last :: "nat \<Rightarrow> 'a list \<Rightarrow> 'a list" where
  "slice_last n xs = drop (nat (max (int (length xs) + (- int n)) 0)) xs"

text \<open>\<^verbatim>\<open>xs.sort(cmp)\<close> as a stable insertion sort: \<open>x\<close> goes before the first element
  it does not have to follow. For a comparator that is a total preorder every stable sort
  gives this list.\<close>

fun insert_cmp :: "('a \<Rightarrow> 'a \<Rightarrow> real) \<Rightarrow> 'a \<Rightarrow> 'a list \<Rightarrow> 'a list" where
  "insert_cmp cmp x [] = [x]"
| "insert_cmp cmp x (y # ys) = (if cmp x y \<le> 0 then x # y # ys else y # insert_cmp cmp x ys)"

definition sort_cmp :: "('a \<Rightarrow> 'a \<Rightarrow> real) \<Rightarrow> 'a list \<Rightarrow> 'a list" where
  "sort_cmp cmp xs = foldr (insert_cmp cmp) xs []"

subsection \<open>types.ts\<close>

datatype node_type = TWord | TPhrase | TPunctuation

text \<open>An address of a node object in the heap.\<close>

type_synonym ref = nat

record UQRCNode =
  node_id :: string
  content :: string
  node_type :: node_type
  lengthWeight :: real
  charIndexWeight :: real
  stabilityWeight :: real
  usageWeight :: real
  curvatureSignature :: real
  fieldValue :: real
  parentId :: "string option"
  childIds :: "string list"
  linkStrengths :: "(string \<times> real) list"
  createdAt :: nat
  lastUsedAt :: nat

record UQRCEdge =
  fromId :: string
  toId :: string
  strength :: real
  edge_curvature :: real
  isSequential :: bool

record FieldState =
  field_u :: real
  gradients :: "real list"
  field_curvature :: real
  stability :: real

record UQRCConfig =
  nu :: real
  lambda :: real
  minLengthThreshold :: real
  curvatureThreshold :: real
  stabilityThreshold :: real

record ResponseCandidate =
  nodeIds :: "string list"
  cand_content :: string
  score :: real
  cand_curvature :: real
  cand_isStable :: bool

subsection \<open>SpectralWeightEngine.ts\<close>

definition calculateLengthWeight :: "string \<Rightarrow> real" where
  "calculateLengthWeight c = min (real (length c) / 10) 1"

definition calculateCharIndexWeight :: "string \<Rightarrow> real" where
  "calculateCharIndexWeight c = (if length c = 0 then 0
     else foldl (\<lambda>sum ch. sum + real (of_char ch mod 128) / 128) 0 c / real (length c))"

definition calculateInitialStabilityWeight :: real where
  "calculateInitialStabilityWeight = 1"

definition calculateInitialUsageWeight :: real where
  "calculateInitialUsageWeight = 1"

text \<open>\<^verbatim>\<open>hash = ((hash << 5) - hash + code) | 0\<close> on 32-bit integers, read signed.\<close>

definition hash_step :: "32 word \<Rightarrow> char \<Rightarrow> 32 word" where
  "hash_step h c = push_bit 5 h - h + of_nat (of_char c)"

definition calculateCurvatureSignature :: "string \<Rightarrow> real" where
  "calculateCurvatureSignature c = tanh (real_of_int (sint (foldl hash_step 0 c)) / 1000000)"

subsection \<open>MemoryStore.ts\<close>

record MemoryStore =
  objs :: "UQRCNode list"
  nodes :: "(string \<times> ref) list"
  edges :: "UQRCEdge list"
  fieldState :: FieldState
  stabilityHistory :: "real list"
  clock :: "nat \<Rightarrow> nat"
  ticks :: nat

definition default_config :: UQRCConfig where
  "default_config = \<lparr> nu = 0.1, lambda = 0.05, minLengthThreshold = 0.1,
     curvatureThreshold = 2.0, stabilityThreshold = 0.3 \<rparr>"

definition dead_field :: FieldState where
  "dead_field = \<lparr> field_u = 0, gradients = [], field_curvature = 0, stability = 1 \<rparr>"

text \<open>The store of the constructor when nothing was saved: the dead state, with a clock.\<close>

definition new_store :: "(nat \<Rightarrow> nat) \<Rightarrow> nat \<Rightarrow> MemoryStore" where
  "new_store clk t = \<lparr> objs = [], nodes = [], edges = [], fieldState = dead_field,
     stabilityHistory = [], clock = clk, ticks = t \<rparr>"

text \<open>The time the next \<^verbatim>\<open>Date.now()\<close> reads, and the store after \<open>k\<close> reads.\<close>

definition dateNow :: "MemoryStore \<Rightarrow> nat" where
  "dateNow s = clock s (ticks s)"

definition tick :: "nat \<Rightarrow> MemoryStore \<Rightarrow> MemoryStore" where
  "tick k s = s\<lparr> ticks := ticks s + k \<rparr>"

text \<open>A field update of the object at an address.\<close>

definition update_obj :: "ref \<Rightarrow> (UQRCNode \<Rightarrow> UQRCNode) \<Rightarrow> MemoryStore \<Rightarrow> MemoryStore" where
  "update_obj a f s = s\<lparr> objs := (objs s)[a := f (objs s ! a)] \<rparr>"

definition type_name :: "node_type \<Rightarrow> string" where
  "type_name t = (case t of TWord \<Rightarrow> ''word'' | TPhrase \<Rightarrow> ''phrase''
     | TPunctuation \<Rightarrow> ''punctuation'')"

definition generateId :: "string \<Rightarrow> node_type \<Rightarrow> nat \<Rightarrow> string" where
  "generateId c t now = type_name t @ ''_'' @ replace_ws (toLowerCase c) @ ''_'' @ digits now"

definition getNode :: "string \<Rightarrow> MemoryStore \<Rightarrow> ref option" where
  "getNode i s = map_of (nodes s) i"

definition getAllNodes :: "MemoryStore \<Rightarrow> ref list" where
  "getAllNodes s = map snd (nodes s)"

definition getPhraseNodes :: "MemoryStore \<Rightarrow> ref list" where
  "getPhraseNodes s = filter (\<lambda>a. node_type (objs s ! a) = TPhrase) (getAllNodes s)"

definition findNodeByContent :: "string \<Rightarrow> MemoryStore \<Rightarrow> ref option" where
  "findNodeByContent c s = (let normalized = trim (toLowerCase c) in
     find (\<lambda>a. trim (toLowerCase (content (objs s ! a))) = normalized) (getAllNodes s))"

text \<open>A string or \<^verbatim>\<open>null\<close> in a condition: \<^verbatim>\<open>null\<close> and the empty string are
  falsy.\<close>

definition truthy :: "string option \<Rightarrow> bool" where
  "truthy p = (case p of None \<Rightarrow> False | Some i \<Rightarrow> i \<noteq> [])"

text \<open>\<^verbatim>\<open>createNode\<close> returns the address of the node: the first stored node of the same
  normalised content, or a new object. A new object reads the clock three times (its id,
  \<^verbatim>\<open>createdAt\<close>, \<^verbatim>\<open>lastUsedAt\<close>); \<^verbatim>\<open>nodes.set\<close> replaces the entry of an id that
  is already a key and appends one otherwise.\<close>

definition createNode ::
  "string \<Rightarrow> node_type \<Rightarrow> string option \<Rightarrow> MemoryStore \<Rightarrow> ref \<times> MemoryStore" where
  "createNode c t parent s =
     (case findNodeByContent c s of
        Some a \<Rightarrow>
          (a, tick 1 (update_obj a
                (\<lambda>n. n\<lparr> usageWeight := usageWeight n + 1, lastUsedAt := dateNow s \<rparr>) s))
      | None \<Rightarrow>
          (let node = \<lparr> node_id = generateId c t (clock s (ticks s)),
                 content = c, node_type = t,
                 lengthWeight = calculateLengthWeight c,
                 charIndexWeight = calculateCharIndexWeight c,
                 stabilityWeight = calculateInitialStabilityWeight,
                 usageWeight = calculateInitialUsageWeight,
                 curvatureSignature = calculateCurvatureSignature c,
                 fieldValue = field_u (fieldState s),
                 parentId = parent, childIds = [], linkStrengths = [],
                 createdAt = clock s (ticks s + 1), lastUsedAt = clock s (ticks s + 2) \<rparr>;
               a = length (objs s);
               s1 = tick 3 (s\<lparr> objs := objs s @ [node],
                      nodes := AList.update (node_id node) a (nodes s) \<rparr>);
               s2 = (if truthy parent
                     then (case getNode (the parent) s1 of
                             Some pa \<Rightarrow> update_obj pa
                               (\<lambda>n. n\<lparr> childIds := childIds n @ [node_id node] \<rparr>) s1
                           | None \<Rightarrow> s1)
                     else s1)
           in (a, s2)))"

text \<open>The first element that satisfies \<open>P\<close> is changed by \<open>f\<close>.\<close>

fun update_first :: "('a \<Rightarrow> bool) \<Rightarrow> ('a \<Rightarrow> 'a) \<Rightarrow> 'a list \<Rightarrow> 'a list" where
  "update_first P f [] = []"
| "update_first P f (x # xs) = (if P x then f x # xs else x # update_first P f xs)"

definition createEdge :: "string \<Rightarrow> string \<Rightarrow> bool \<Rightarrow> MemoryStore \<Rightarrow> MemoryStore" where
  "createEdge f t sq s =
     (case find (\<lambda>e. fromId e = f \<and> toId e = t) (edges s) of
        Some existingEdge \<Rightarrow>
          s\<lparr> edges := update_first (\<lambda>e. fromId e = f \<and> toId e = t)
                (\<lambda>e. (case (getNode f s, getNode t s) of
                         (Some fa, Some ta) \<Rightarrow>
                            e\<lparr> strength := strength e + 0.1,
                               edge_curvature := \<bar>curvatureSignature (objs s ! fa)
                                                  - curvatureSignature (objs s ! ta)\<bar> \<rparr>
                       | _ \<Rightarrow> e\<lparr> strength := strength e + 0.1 \<rparr>))
                (edges s) \<rparr>
      | None \<Rightarrow>
          (case (getNode f s, getNode t s) of
             (Some fa, Some ta) \<Rightarrow>
               (let edge = \<lparr> fromId = f, toId = t, strength = 1,
                      edge_curvature = \<bar>curvatureSignature (objs s ! fa)
                                        - curvatureSignature (objs s ! ta)\<bar>,
                      isSequential = sq \<rparr>;
                    s1 = s\<lparr> edges := edges s @ [edge] \<rparr>;
                    s2 = update_obj fa
                      (\<lambda>n. n\<lparr> linkStrengths := AList.update t (strength edge) (linkStrengths n) \<rparr>) s1
                in update_obj ta
                      (\<lambda>n. n\<lparr> linkStrengths := AList.update f (strength edge) (linkStrengths n) \<rparr>) s2)
           | _ \<Rightarrow> s))"

definition getSequentialEdges :: "string \<Rightarrow> MemoryStore \<Rightarrow> UQRCEdge list" where
  "getSequentialEdges i s = filter (\<lambda>e. fromId e = i \<and> isSequential e) (edges s)"

text \<open>A JavaScript \<^verbatim>\<open>Set\<close> keeps the first insertion of each element.\<close>

definition set_add :: "'a \<Rightarrow> 'a list \<Rightarrow> 'a list" where
  "set_add x xs = (if x \<in> set xs then xs else xs @ [x])"

definition getNeighbors :: "string \<Rightarrow> MemoryStore \<Rightarrow> ref list" where
  "getNeighbors i s =
     (let es = filter (\<lambda>e. fromId e = i \<or> toId e = i) (edges s);
          neighborIds = foldl (\<lambda>ids e.
             (let ids1 = (if fromId e = i then set_add (toId e) ids else ids)
              in if toId e = i then set_add (fromId e) ids1 else ids1)) [] es
      in List.map_filter (\<lambda>j. getNode j s) neighborIds)"

definition updateNodeFieldValue :: "string \<Rightarrow> real \<Rightarrow> MemoryStore \<Rightarrow> MemoryStore" where
  "updateNodeFieldValue i v s =
     (case getNode i s of Some a \<Rightarrow> update_obj a (\<lambda>n. n\<lparr> fieldValue := v \<rparr>) s | None \<Rightarrow> s)"

text \<open>\<^verbatim>\<open>push\<close>, then one \<^verbatim>\<open>shift\<close> when the history is longer than 20.\<close>

definition updateFieldState :: "FieldState \<Rightarrow> MemoryStore \<Rightarrow> MemoryStore" where
  "updateFieldState newState s =
     (let h = stabilityHistory s @ [stability newState]
      in s\<lparr> fieldState := newState,
            stabilityHistory := (if length h > 20 then tl h else h) \<rparr>)"

definition clear :: "MemoryStore \<Rightarrow> MemoryStore" where
  "clear s = s\<lparr> objs := [], nodes := [], edges := [], stabilityHistory := [],
     fieldState := dead_field \<rparr>"

subsection \<open>UQRCOperatorEngine.ts\<close>

definition discreteDerivative :: "real list \<Rightarrow> real list" where
  "discreteDerivative vs = (if length vs < 2 then [0]
     else map (\<lambda>i. vs ! (i + 1) - vs ! i) [0..<length vs - 1])"

definition calculateCurvature :: "real list \<Rightarrow> real" where
  "calculateCurvature fieldValues = (if length fieldValues < 3 then 0
     else (let d1 = discreteDerivative fieldValues; d2 = discreteDerivative d1
           in foldl (\<lambda>sum v. sum + \<bar>v\<bar>) 0 d2 / real (max (length d2) 1)))"

definition laplacianSmoothing :: "real \<Rightarrow> real list \<Rightarrow> real" where
  "laplacianSmoothing v neighbors = (if length neighbors = 0 then 0
     else foldl (\<lambda>sum n. sum + n) 0 neighbors / real (length neighbors) - v)"

definition curvatureInfluence :: "UQRCNode \<Rightarrow> real list \<Rightarrow> real" where
  "curvatureInfluence node neighborCurvatures = (if length neighborCurvatures = 0 then 0
     else curvatureSignature node *
       (foldl (\<lambda>sum c. sum + c) 0 neighborCurvatures / real (length neighborCurvatures)))"

definition linguisticStability :: "UQRCNode \<Rightarrow> real" where
  "linguisticStability node = usageWeight node * stabilityWeight node * 0.1"

definition secondGradientStability :: "real list \<Rightarrow> real" where
  "secondGradientStability h = (if length h < 3 then 0
     else (let d1 = discreteDerivative h; d2 = discreteDerivative d1
           in foldl (\<lambda>sum v. sum + v * v) 0 d2 / real (max (length d2) 1)))"

definition evolve :: "UQRCConfig \<Rightarrow> UQRCNode \<Rightarrow> real list \<Rightarrow> real list \<Rightarrow> real" where
  "evolve cfg node neighborFieldValues neighborCurvatures =
     (let laplacian = laplacianSmoothing (fieldValue node) neighborFieldValues;
          ricci = curvatureInfluence node neighborCurvatures;
          linguistic = linguisticStability node
      in nu cfg * laplacian + ricci + linguistic)"

definition updateField ::
  "UQRCConfig \<Rightarrow> FieldState \<Rightarrow> UQRCNode \<Rightarrow> real list \<Rightarrow> real list \<Rightarrow> real list \<Rightarrow> FieldState" where
  "updateField cfg currentState node neighborFieldValues neighborCurvatures hist =
     (let evolution = evolve cfg node neighborFieldValues neighborCurvatures;
          derivativeSum = foldl (\<lambda>sum g. sum + g) 0 (gradients currentState);
          secondGradient = secondGradientStability hist;
          newU = field_u currentState + evolution + derivativeSum + lambda cfg * secondGradient;
          newGradients = slice_last 10 (gradients currentState @ [newU - field_u currentState]);
          newCurvature = calculateCurvature
             (map (\<lambda>i. real i) [0..<length (gradients currentState)] @ [newU]);
          newStability = 1 / (1 + \<bar>secondGradient\<bar>)
      in \<lparr> field_u = newU, gradients = newGradients, field_curvature = newCurvature,
           stability = newStability \<rparr>)"

subsection \<open>GeometricGraphEngine.ts\<close>

definition isPunctuation :: "char \<Rightarrow> bool" where
  "isPunctuation c = (c \<in> set [CHR ''.'', CHR '','', CHR ''!'', CHR ''?'', CHR '';'', CHR '':'',
     CHR 0x27, CHR 0x22, CHR ''('', CHR '')'', CHR ''-''])"

definition isAlnum :: "char \<Rightarrow> bool" where
  "isAlnum c = (let n = of_char c :: nat in
     (97 \<le> n \<and> n \<le> 122) \<or> (65 \<le> n \<and> n \<le> 90) \<or> (48 \<le> n \<and> n \<le> 57))"

definition isWord :: "string \<Rightarrow> bool" where
  "isWord token = (token \<noteq> [] \<and> list_all isAlnum token)"

text \<open>The loop of \<^verbatim>\<open>tokenize\<close> over the characters, with the tokens pushed so far and
  the token being read.\<close>

fun tokenize_from :: "string list \<Rightarrow> string \<Rightarrow> string \<Rightarrow> string list" where
  "tokenize_from tokens current [] = (if current \<noteq> [] then tokens @ [current] else tokens)"
| "tokenize_from tokens current (c # cs) =
     (if isPunctuation c
      then tokenize_from ((if current \<noteq> [] then tokens @ [current] else tokens) @ [[c]]) [] cs
      else if c = CHR '' ''
      then tokenize_from (if current \<noteq> [] then tokens @ [current] else tokens) [] cs
      else tokenize_from tokens (current @ [c]) cs)"

definition tokenize :: "string \<Rightarrow> string list" where
  "tokenize text = tokenize_from [] [] text"

text \<open>One round of the loop of \<^verbatim>\<open>establishParenthood\<close>, for the phrase at \<open>np\<close> and an
  existing phrase at \<open>ex\<close>. \<^verbatim>\<open>getNode(newPhrase.parentId || '')\<close> is reached only when
  the parent is falsy, so it looks up the empty id.\<close>

definition parenthood_step :: "ref \<Rightarrow> ref \<Rightarrow> MemoryStore \<Rightarrow> MemoryStore" where
  "parenthood_step np ex s =
     (if node_id (objs s ! ex) = node_id (objs s ! np) then s
      else
        (let c = toLowerCase (content (objs s ! np));
             existingContent = toLowerCase (content (objs s ! ex));
             s1 = (if str_includes c existingContent \<and> c \<noteq> existingContent
                   then (if \<not> truthy (parentId (objs s ! np))
                         then (let currentParent = getNode [] s
                               in if (case currentParent of None \<Rightarrow> True
                                      | Some cp \<Rightarrow> length existingContent > length (content (objs s ! cp)))
                                  then createEdge (node_id (objs s ! ex)) (node_id (objs s ! np)) False
                                         (update_obj ex
                                            (\<lambda>n. n\<lparr> childIds := childIds n @ [node_id (objs s ! np)] \<rparr>)
                                            (update_obj np
                                               (\<lambda>n. n\<lparr> parentId := Some (node_id (objs s ! ex)) \<rparr>) s))
                                  else s)
                         else s)
                   else s)
         in if str_includes existingContent c \<and> c \<noteq> existingContent
            then (if node_id (objs s1 ! np) \<notin> set (childIds (objs s1 ! ex))
                  then createEdge (node_id (objs s1 ! ex)) (node_id (objs s1 ! np)) False
                         (update_obj np
                            (\<lambda>n. n\<lparr> parentId := Some (node_id (objs s1 ! ex)) \<rparr>)
                            (update_obj ex
                               (\<lambda>n. n\<lparr> childIds := childIds n @ [node_id (objs s1 ! np)] \<rparr>) s1))
                  else s1)
            else s1))"

definition establishParenthood :: "ref \<Rightarrow> MemoryStore \<Rightarrow> MemoryStore" where
  "establishParenthood np s = fold (parenthood_step np) (getPhraseNodes s) s"

text \<open>The loop of \<^verbatim>\<open>processInput\<close> over the tokens: the phrase node, the previous
  token's node, the nodes created so far.\<close>

fun process_tokens ::
  "ref \<Rightarrow> string list \<Rightarrow> ref option \<Rightarrow> ref list \<Rightarrow> MemoryStore \<Rightarrow> ref list \<times> MemoryStore" where
  "process_tokens ph [] previousWordNode createdNodes s = (createdNodes, s)"
| "process_tokens ph (token # tokens) previousWordNode createdNodes s =
     (let t = (if isWord token then TWord else TPunctuation);
          (wordNode, s1) = createNode token t None s;
          s2 = createEdge (node_id (objs s1 ! ph)) (node_id (objs s1 ! wordNode)) False s1;
          s3 = (case previousWordNode of
                  Some p \<Rightarrow> createEdge (node_id (objs s2 ! p)) (node_id (objs s2 ! wordNode)) True s2
                | None \<Rightarrow> s2)
      in process_tokens ph tokens (Some wordNode) (createdNodes @ [wordNode]) s3)"

definition processInput :: "string \<Rightarrow> MemoryStore \<Rightarrow> ref list \<times> MemoryStore" where
  "processInput input s =
     (let trimmed = trim input in
      if trimmed = [] then ([], s)
      else (let (phraseNode, s1) = createNode trimmed TPhrase None s;
                (createdNodes, s2) = process_tokens phraseNode (tokenize trimmed) None [phraseNode] s1
            in (createdNodes, establishParenthood phraseNode s2)))"

definition processTrainingPair :: "string \<Rightarrow> string \<Rightarrow> MemoryStore \<Rightarrow> MemoryStore" where
  "processTrainingPair p r s =
     (let (promptNodes, s1) = processInput p s;
          (responseNodes, s2) = processInput r s1
      in if promptNodes \<noteq> [] \<and> responseNodes \<noteq> []
         then (case (find (\<lambda>a. node_type (objs s2 ! a) = TPhrase) promptNodes,
                     find (\<lambda>a. node_type (objs s2 ! a) = TPhrase) responseNodes) of
                 (Some promptPhrase, Some responsePhrase) \<Rightarrow>
                    createEdge (node_id (objs s2 ! promptPhrase))
                      (node_id (objs s2 ! responsePhrase)) True s2
               | _ \<Rightarrow> s2)
         else s2)"

text \<open>The comparator of \<^verbatim>\<open>getStrongestLink\<close>.\<close>

definition link_cmp :: "string \<Rightarrow> MemoryStore \<Rightarrow> UQRCEdge \<Rightarrow> UQRCEdge \<Rightarrow> real" where
  "link_cmp fromNodeId s a b =
     (case (getNode (toId a) s, getNode (toId b) s) of
        (Some na, Some nb) \<Rightarrow>
          (let parentBonusA = (if parentId (objs s ! na) = Some fromNodeId then 0 else 0.5);
               parentBonusB = (if parentId (objs s ! nb) = Some fromNodeId then 0 else 0.5);
               scoreA = strength a + parentBonusA + stabilityWeight (objs s ! na) * 0.2;
               scoreB = strength b + parentBonusB + stabilityWeight (objs s ! nb) * 0.2
           in scoreB - scoreA)
      | _ \<Rightarrow> strength b - strength a)"

definition getStrongestLink :: "string \<Rightarrow> MemoryStore \<Rightarrow> ref option" where
  "getStrongestLink fromNodeId s =
     (let es = getSequentialEdges fromNodeId s in
      if es = [] then None
      else getNode (toId (hd (sort_cmp (link_cmp fromNodeId s) es))) s)"

text \<open>The body of the loop of \<^verbatim>\<open>findMatchingPhrases\<close> for one phrase: the match pushed,
  if any.\<close>

definition phrase_match :: "string \<Rightarrow> MemoryStore \<Rightarrow> ref \<Rightarrow> (ref \<times> real) option" where
  "phrase_match normalized s a =
     (let phraseContent = toLowerCase (content (objs s ! a)) in
      if phraseContent = normalized then Some (a, 1)
      else if str_includes phraseContent normalized \<or> str_includes normalized phraseContent
      then Some (a, real (min (length phraseContent) (length normalized)) /
                    real (max (length phraseContent) (length normalized)))
      else (let inputWords = remdups (split_ws normalized);
                phraseWords = split_ws (toLowerCase (content (objs s ! a)));
                wordMatches = length (filter (\<lambda>w. w \<in> set inputWords) phraseWords)
            in if wordMatches > 0
               then Some (a, real wordMatches /
                             real (max (length inputWords) (length phraseWords)) * 0.5)
               else None))"

definition scored_matches :: "string \<Rightarrow> MemoryStore \<Rightarrow> (ref \<times> real) list" where
  "scored_matches input s =
     List.map_filter (phrase_match (trim (toLowerCase input)) s) (getPhraseNodes s)"

definition findMatchingPhrases :: "string \<Rightarrow> MemoryStore \<Rightarrow> ref list" where
  "findMatchingPhrases input s =
     map fst (sort_cmp (\<lambda>a b. snd b - snd a) (scored_matches input s))"

subsection \<open>StabilityFilter.ts\<close>

definition passesCurvatureCheck :: "UQRCConfig \<Rightarrow> real \<Rightarrow> bool" where
  "passesCurvatureCheck cfg c = (\<bar>c\<bar> < curvatureThreshold cfg)"

definition passesMinimalLengthCheck :: "ResponseCandidate \<Rightarrow> bool" where
  "passesMinimalLengthCheck cand = (length (cand_content cand) > 0 \<and> length (nodeIds cand) > 0)"

text \<open>The loop of \<^verbatim>\<open>passesParentDominanceCheck\<close>: each round ends in \<^verbatim>\<open>continue\<close> or
  falls through to the next one, and the value after the loop is \<^verbatim>\<open>true\<close>.\<close>

fun passesParentDominanceCheck :: "MemoryStore \<Rightarrow> string list \<Rightarrow> bool" where
  "passesParentDominanceCheck s [] = True"
| "passesParentDominanceCheck s (nodeId # rest) =
     (case getNode nodeId s of
        None \<Rightarrow> passesParentDominanceCheck s rest
      | Some a \<Rightarrow>
          (if truthy (parentId (objs s ! a))
           then (case getNode (the (parentId (objs s ! a))) s of
                   Some p \<Rightarrow>
                     (if stabilityWeight (objs s ! p) > stabilityWeight (objs s ! a) * 1.5
                      then (if node_type (objs s ! a) = TPhrase
                            then passesParentDominanceCheck s rest
                            else passesParentDominanceCheck s rest)
                      else passesParentDominanceCheck s rest)
                 | None \<Rightarrow> passesParentDominanceCheck s rest)
           else passesParentDominanceCheck s rest))"

definition passesStabilityThreshold :: "UQRCConfig \<Rightarrow> real \<Rightarrow> bool" where
  "passesStabilityThreshold cfg sc = (sc > stabilityThreshold cfg)"

definition isStable :: "UQRCConfig \<Rightarrow> MemoryStore \<Rightarrow> ResponseCandidate \<Rightarrow> bool" where
  "isStable cfg s cand =
     (if \<not> passesCurvatureCheck cfg (cand_curvature cand) then False
      else if \<not> passesMinimalLengthCheck cand then False
      else if \<not> passesParentDominanceCheck s (nodeIds cand) then False
      else if \<not> passesStabilityThreshold cfg (score cand) then False
      else True)"

text \<open>The inner loop of \<^verbatim>\<open>getFallbackResponse\<close> walks the parent references from a
  matched node; on a cycle of parents it never ends, and the model returns \<open>None\<close> then.
  The pair is \<^verbatim>\<open>bestNode\<close> and \<^verbatim>\<open>bestStability\<close>.\<close>

partial_function (option) fallback_walk ::
  "MemoryStore \<Rightarrow> ref option \<Rightarrow> ref option \<times> real \<Rightarrow> (ref option \<times> real) option" where
  "fallback_walk s current best =
     (case current of
        None \<Rightarrow> Some best
      | Some a \<Rightarrow>
          fallback_walk s
            (if truthy (parentId (objs s ! a)) then getNode (the (parentId (objs s ! a))) s
             else None)
            (if stabilityWeight (objs s ! a) > snd best
             then (Some a, stabilityWeight (objs s ! a)) else best))"

fun fallback_loop ::
  "MemoryStore \<Rightarrow> ref list \<Rightarrow> ref option \<times> real \<Rightarrow> (ref option \<times> real) option" where
  "fallback_loop s [] best = Some best"
| "fallback_loop s (a # rest) best =
     (case fallback_walk s (Some a) best of
        None \<Rightarrow> None
      | Some best1 \<Rightarrow> fallback_loop s rest best1)"

text \<open>The outer \<open>option\<close> is termination, the inner one the \<^verbatim>\<open>null\<close> of the source.\<close>

definition getFallbackResponse ::
  "MemoryStore \<Rightarrow> ref list \<Rightarrow> ResponseCandidate option option" where
  "getFallbackResponse s matchedNodes =
     (if matchedNodes = [] then Some None
      else (case fallback_loop s matchedNodes (None, 0) of
              None \<Rightarrow> None
            | Some (bestNode, bestStability) \<Rightarrow>
                (case bestNode of
                   Some b \<Rightarrow> Some (Some \<lparr> nodeIds = [node_id (objs s ! b)],
                       cand_content = content (objs s ! b), score = bestStability,
                       cand_curvature = curvatureSignature (objs s ! b), cand_isStable = True \<rparr>)
                 | None \<Rightarrow> Some None)))"

text \<open>\<^verbatim>\<open>usageScore < 0.1\<close> for \<^verbatim>\<open>usageScore = usageWeight / (age + 1)\<close>: a division by
  zero gives an infinity of the sign of the usage weight, or NaN.\<close>

definition usage_score_low :: "real \<Rightarrow> real \<Rightarrow> bool" where
  "usage_score_low usage age = (if age + 1 = 0 then usage < 0 else usage / (age + 1) < 0.1)"

text \<open>\<^verbatim>\<open>getUnstableNodes\<close> reads the clock once.\<close>

definition getUnstableNodes :: "MemoryStore \<Rightarrow> ref list \<times> MemoryStore" where
  "getUnstableNodes s =
     (let currentTime = dateNow s; dayInMs = 24 * 60 * 60 * 1000
      in (filter (\<lambda>a.
            (let age = (real currentTime - real (createdAt (objs s ! a))) / dayInMs
             in usage_score_low (usageWeight (objs s ! a)) age
                \<and> stabilityWeight (objs s ! a) < 0.5))
          (getAllNodes s), tick 1 s))"

subsection \<open>ResponseSelector.ts\<close>

text \<open>The loop of \<^verbatim>\<open>buildChain\<close>; the first argument counts the rounds that are left.\<close>

fun buildChain_loop ::
  "nat \<Rightarrow> string \<Rightarrow> string list \<Rightarrow> ref list \<Rightarrow> MemoryStore \<Rightarrow> ref list" where
  "buildChain_loop 0 currentId visited chain s = chain"
| "buildChain_loop (Suc k) currentId visited chain s =
     (if currentId \<in> set visited then chain
      else (case getStrongestLink currentId s of
              None \<Rightarrow> chain
            | Some nx \<Rightarrow>
                (if node_type (objs s ! nx) \<noteq> TPhrase then chain
                 else buildChain_loop k (node_id (objs s ! nx)) (currentId # visited)
                        (chain @ [nx]) s)))"

definition buildChain :: "string \<Rightarrow> nat \<Rightarrow> MemoryStore \<Rightarrow> ref list" where
  "buildChain startId maxLength s = buildChain_loop maxLength startId [] [] s"

definition calculateScore :: "MemoryStore \<Rightarrow> ref \<Rightarrow> ref \<Rightarrow> real" where
  "calculateScore s resp match =
     (let es = getSequentialEdges (node_id (objs s ! match)) s;
          linkStrength = (case find (\<lambda>e. toId e = node_id (objs s ! resp)) es of
                            Some e \<Rightarrow> strength e | None \<Rightarrow> 0);
          stabilityBonus = stabilityWeight (objs s ! resp) * 0.3;
          usageBonus = min (usageWeight (objs s ! resp) * 0.1) 0.3;
          curvaturePenalty = \<bar>curvatureSignature (objs s ! resp)\<bar> * 0.1
      in linkStrength + stabilityBonus + usageBonus - curvaturePenalty)"

definition calculateChainScore :: "MemoryStore \<Rightarrow> ref list \<Rightarrow> real" where
  "calculateChainScore s chain =
     (if length chain = 0 then 0
      else foldl (\<lambda>totalScore i.
             totalScore + stabilityWeight (objs s ! (chain ! i)) * (1 - real i * 0.2)
                          * usageWeight (objs s ! (chain ! i)))
           0 [0..<length chain] / real (length chain))"

text \<open>The candidates that one matched phrase contributes.\<close>

definition candidates_of :: "MemoryStore \<Rightarrow> ref \<Rightarrow> ResponseCandidate list" where
  "candidates_of s match =
     (case getStrongestLink (node_id (objs s ! match)) s of
        Some nextPhrase \<Rightarrow>
          [\<lparr> nodeIds = [node_id (objs s ! nextPhrase)],
             cand_content = content (objs s ! nextPhrase),
             score = calculateScore s nextPhrase match,
             cand_curvature = curvatureSignature (objs s ! nextPhrase),
             cand_isStable = True \<rparr>]
      | None \<Rightarrow> [])
     @ (let chain = buildChain (node_id (objs s ! match)) 3 s in
        if length chain > 0
        then [\<lparr> nodeIds = map (\<lambda>a. node_id (objs s ! a)) chain,
                cand_content = join_space (map (\<lambda>a. content (objs s ! a)) chain),
                score = calculateChainScore s chain,
                cand_curvature =
                  foldl (\<lambda>sum a. sum + curvatureSignature (objs s ! a)) 0 chain
                    / real (length chain),
                cand_isStable = True \<rparr>]
        else [])"

definition buildCandidates :: "MemoryStore \<Rightarrow> ref list \<Rightarrow> ResponseCandidate list" where
  "buildCandidates s matches = concat (map (candidates_of s) matches)"

definition constructFromWords :: "string \<Rightarrow> MemoryStore \<Rightarrow> string option" where
  "constructFromWords input s =
     (let inputWords = split_ws (toLowerCase input);
          knownWords = List.map_filter
            (\<lambda>w. map_option (\<lambda>a. content (objs s ! a)) (findNodeByContent w s)) inputWords
      in if length knownWords = 0 then None else Some (join_space knownWords))"

text \<open>\<^verbatim>\<open>generateResponse\<close> does not change the store. It returns \<open>None\<close> when the walk of
  the fallback does not end.\<close>

definition generateResponse :: "UQRCConfig \<Rightarrow> string \<Rightarrow> MemoryStore \<Rightarrow> string option" where
  "generateResponse cfg input s =
     (if length (getAllNodes s) = 0 then Some input
      else (let matches = findMatchingPhrases input s in
        if length matches = 0
        then Some (case constructFromWords input s of
                     None \<Rightarrow> input
                   | Some w \<Rightarrow> if w = [] then input else w)
        else (let candidates = buildCandidates s matches;
                  stableCandidates = filter (isStable cfg s) candidates
              in if length stableCandidates > 0
                 then Some (cand_content (hd (sort_cmp (\<lambda>a b. score b - score a) stableCandidates)))
                 else (case getFallbackResponse s matches of
                         None \<Rightarrow> None
                       | Some (Some fallback) \<Rightarrow> Some (cand_content fallback)
                       | Some None \<Rightarrow> Some input))))"

subsection \<open>UQRC_LLM.ts\<close>

record RecentMemory =
  prompt :: string
  response :: string
  timestamp :: nat

record UQRC_LLM =
  store :: MemoryStore
  trainingLog :: "RecentMemory list"

text \<open>The engine of the constructor when nothing was saved.\<close>

definition new_llm :: "(nat \<Rightarrow> nat) \<Rightarrow> nat \<Rightarrow> UQRC_LLM" where
  "new_llm clk t = \<lparr> store = new_store clk t, trainingLog = [] \<rparr>"

text \<open>One round of the loop of \<^verbatim>\<open>evolveField\<close>: \<^verbatim>\<open>currentState\<close> and the stability
  history were read once, before the loop.\<close>

definition evolve_step :: "FieldState \<Rightarrow> real list \<Rightarrow> ref \<Rightarrow> MemoryStore \<Rightarrow> MemoryStore" where
  "evolve_step currentState hist a s =
     (let neighbors = getNeighbors (node_id (objs s ! a)) s;
          neighborFieldValues = map (\<lambda>b. fieldValue (objs s ! b)) neighbors;
          neighborCurvatures = map (\<lambda>b. curvatureSignature (objs s ! b)) neighbors;
          newState = updateField default_config currentState (objs s ! a)
                       neighborFieldValues neighborCurvatures hist
      in updateNodeFieldValue (node_id (objs s ! a)) (field_u newState)
           (updateFieldState newState s))"

definition evolveField :: "string \<Rightarrow> MemoryStore \<Rightarrow> MemoryStore" where
  "evolveField input s =
     (let (ns, s1) = processInput input s in
      if length ns = 0 then s1
      else fold (evolve_step (fieldState s1) (stabilityHistory s1)) ns s1)"

definition respond :: "string \<Rightarrow> UQRC_LLM \<Rightarrow> (string \<times> UQRC_LLM) option" where
  "respond p l =
     (let s1 = snd (processInput p (store l));
          s2 = evolveField p s1
      in map_option (\<lambda>r. (r, l\<lparr> store := s2 \<rparr>)) (generateResponse default_config p s2))"

definition reinforce_node :: "ref \<Rightarrow> MemoryStore \<Rightarrow> MemoryStore" where
  "reinforce_node a s =
     (case getNode (node_id (objs s ! a)) s of
        Some b \<Rightarrow> update_obj b
          (\<lambda>n. n\<lparr> stabilityWeight := min (stabilityWeight n + 0.1) 2.0,
                  usageWeight := usageWeight n + 0.5 \<rparr>) s
      | None \<Rightarrow> s)"

definition reinforceNodes :: "string \<Rightarrow> string \<Rightarrow> MemoryStore \<Rightarrow> MemoryStore" where
  "reinforceNodes p r s =
     (let promptPhrases = findMatchingPhrases p s;
          responsePhrases = findMatchingPhrases r s
      in fold reinforce_node (promptPhrases @ responsePhrases) s)"

definition learnFrom :: "string \<Rightarrow> string \<Rightarrow> UQRC_LLM \<Rightarrow> UQRC_LLM" where
  "learnFrom p r l =
     (let s1 = processTrainingPair p r (store l);
          s2 = evolveField p s1;
          s3 = evolveField r s2;
          s4 = reinforceNodes p r s3;
          log1 = trainingLog l @ [\<lparr> prompt = p, response = r, timestamp = dateNow s4 \<rparr>]
      in \<lparr> store = tick 1 s4,
           trainingLog = (if length log1 > 100 then tl log1 else log1) \<rparr>)"

definition clearMemory :: "UQRC_LLM \<Rightarrow> UQRC_LLM" where
  "clearMemory l = \<lparr> store = clear (store l), trainingLog = [] \<rparr>"

text \<open>The public operations that change the engine, and a run of them: \<open>None\<close> when a
  call does not return.\<close>

datatype operation = Respond string | LearnFrom string string | ClearMemory

fun apply_operation :: "operation \<Rightarrow> UQRC_LLM \<Rightarrow> UQRC_LLM option" where
  "apply_operation (Respond p) l = map_option snd (respond p l)"
| "apply_operation (LearnFrom p r) l = Some (learnFrom p r l)"
| "apply_operation ClearMemory l = Some (clearMemory l)"

fun run :: "operation list \<Rightarrow> UQRC_LLM \<Rightarrow> UQRC_LLM option" where
  "run [] l = Some l"
| "run (op # ops) l = (case apply_operation op l of None \<Rightarrow> None | Some l1 \<Rightarrow> run ops l1)"

subsection \<open>Predicates and inputs of the verification\<close>

text \<open>No dangling reference: every address held by the map is an object of the heap.\<close>

definition refs_valid :: "MemoryStore \<Rightarrow> bool" where
  "refs_valid s = list_all (\<lambda>a. a < length (objs s)) (getAllNodes s)"

text \<open>The key that \<^verbatim>\<open>findNodeByContent\<close> compares.\<close>

definition normalizedContent :: "MemoryStore \<Rightarrow> ref \<Rightarrow> string" where
  "normalizedContent s a = trim (toLowerCase (content (objs s ! a)))"

text \<open>A candidate, a node and a field state to run the filter and the operator on.\<close>

definition example_candidate :: ResponseCandidate where
  "example_candidate = \<lparr> nodeIds = [''phrase_hi_0''], cand_content = ''hi'', score = 1,
     cand_curvature = 1 / 2, cand_isStable = True \<rparr>"

definition example_node :: UQRCNode where
  "example_node = \<lparr> node_id = ''word_hi_0'', content = ''hi'', node_type = TWord,
     lengthWeight = 1 / 5, charIndexWeight = 0, stabilityWeight = 1, usageWeight = 1,
     curvatureSignature = 0, fieldValue = 0, parentId = None, childIds = [],
     linkStrengths = [], createdAt = 0, lastUsedAt = 0 \<rparr>"

definition example_field :: FieldState where
  "example_field = \<lparr> field_u = 1, gradients = [1, 1, 1, 1, 1, 1, 1, 1, 1, 1],
     field_curvature = 0, stability = 1 \<rparr>"

text \<open>Two word nodes, and the store after \<^verbatim>\<open>processInput('a')\<close> on a new store, with a
  clock that advances by one at each reading.\<close>

definition two_words :: MemoryStore where
  "two_words = snd (createNode ''b'' TWord None
     (snd (createNode ''a'' TWord None (new_store (\<lambda>n. n) 0))))"

definition store_a :: MemoryStore where
  "store_a = snd (processInput ''a'' (new_store (\<lambda>n. n) 0))"

text \<open>The score of a phrase and its admission to the result of \<^verbatim>\<open>findMatchingPhrases\<close>,
  written from the words of the specification, to compare with \<open>phrase_match\<close>. A phrase is
  admitted when it matches in one of the three ways.\<close>

definition shared_words :: "string \<Rightarrow> string \<Rightarrow> nat" where
  "shared_words normalized phraseContent =
     length (filter (\<lambda>w. w \<in> set (split_ws normalized)) (split_ws phraseContent))"

definition spec_score :: "string \<Rightarrow> string \<Rightarrow> real" where
  "spec_score normalized phraseContent =
     (if phraseContent = normalized then 1
      else if str_includes phraseContent normalized \<or> str_includes normalized phraseContent
      then real (min (length phraseContent) (length normalized)) /
           real (max (length phraseContent) (length normalized))
      else real (shared_words normalized phraseContent) /
           real (max (card (set (split_ws normalized))) (length (split_ws phraseContent))) * 0.5)"

definition spec_admits :: "string \<Rightarrow> string \<Rightarrow> bool" where
  "spec_admits normalized phraseContent =
     (phraseContent = normalized \<or> str_includes phraseContent normalized
      \<or> str_includes normalized phraseContent \<or> shared_words normalized phraseContent > 0)"

text \<open>A predicate on stores that every primitive step of the engine keeps: creating a
  node, creating an edge, a round of parenthood establishment for a valid address and a
  stored phrase, a round of field evolution, a reinforcement, a reading of the clock and a
  reset. Such a predicate also has to exclude dangling references.\<close>

definition preserved :: "(MemoryStore \<Rightarrow> bool) \<Rightarrow> bool" where
  "preserved I \<longleftrightarrow>
     (\<forall>s c t. I s \<longrightarrow> I (snd (createNode c t None s))) \<and>
     (\<forall>s f t sq. I s \<longrightarrow> I (createEdge f t sq s)) \<and>
     (\<forall>s np ex. I s \<longrightarrow> np < length (objs s) \<longrightarrow> ex \<in> set (getPhraseNodes s)
        \<longrightarrow> I (parenthood_step np ex s)) \<and>
     (\<forall>s cs h a. I s \<longrightarrow> I (evolve_step cs h a s)) \<and>
     (\<forall>s a. I s \<longrightarrow> I (reinforce_node a s)) \<and>
     (\<forall>s k. I s \<longrightarrow> I (tick k s)) \<and>
     (\<forall>s. I s \<longrightarrow> I (clear s)) \<and>
     (\<forall>s. I s \<longrightarrow> refs_valid s)"

text \<open>One round of the loop of \<^verbatim>\<open>processInput\<close>: the node of the token, and the store
  after its edges.\<close>

definition token_node :: "string \<Rightarrow> MemoryStore \<Rightarrow> ref" where
  "token_node tok s = fst (createNode tok (if isWord tok then TWord else TPunctuation) None s)"

definition token_state :: "ref \<Rightarrow> string \<Rightarrow> ref option \<Rightarrow> MemoryStore \<Rightarrow> MemoryStore" where
  "token_state ph tok prev s =
     (let s1 = snd (createNode tok (if isWord tok then TWord else TPunctuation) None s);
          w = token_node tok s;
          s2 = createEdge (node_id (objs s1 ! ph)) (node_id (objs s1 ! w)) False s1
      in case prev of
           Some p \<Rightarrow> createEdge (node_id (objs s2 ! p)) (node_id (objs s2 ! w)) True s2
         | None \<Rightarrow> s2)"

text \<open>The invariants of the stability weights and of the bounded histories.\<close>

definition weight_ok :: "UQRCNode \<Rightarrow> bool" where
  "weight_ok n = (1 \<le> stabilityWeight n \<and> stabilityWeight n \<le> 2)"

definition weights_inv :: "MemoryStore \<Rightarrow> bool" where
  "weights_inv s = (refs_valid s \<and> list_all weight_ok (objs s))"

definition histories_inv :: "MemoryStore \<Rightarrow> bool" where
  "histories_inv s = (refs_valid s \<and> length (gradients (fieldState s)) \<le> 10
     \<and> length (stabilityHistory s) \<le> 20)"

text \<open>The store of an engine that has ingested one text \<open>t\<close> since it was new or
  cleared: the first entry of the map is the phrase node of \<open>t\<close>, at address 0, with the id
  \<open>pid\<close>, no parent and stability weight 1; no other stored node is a phrase; no
  sequential edge leaves the phrase; no other object has the id of the phrase.\<close>

definition fresh_inv :: "string \<Rightarrow> string \<Rightarrow> MemoryStore \<Rightarrow> bool" where
  "fresh_inv pid t s \<longleftrightarrow>
     take 7 pid = ''phrase_'' \<and> nodes s \<noteq> [] \<and> hd (nodes s) = (pid, 0) \<and> objs s \<noteq> [] \<and>
     content (objs s ! 0) = t \<and> node_type (objs s ! 0) = TPhrase \<and>
     parentId (objs s ! 0) = None \<and> stabilityWeight (objs s ! 0) = 1 \<and>
     node_id (objs s ! 0) = pid \<and>
     list_all (\<lambda>(k, a). a \<noteq> 0 \<and> a < length (objs s) \<and> node_type (objs s ! a) \<noteq> TPhrase
                \<and> k \<noteq> pid) (tl (nodes s)) \<and>
     list_all (\<lambda>e. isSequential e \<longrightarrow> fromId e \<noteq> pid) (edges s) \<and>
     list_all (\<lambda>a. node_id (objs s ! a) \<noteq> pid) [1..<length (objs s)]"

text \<open>The id that \<^verbatim>\<open>generateId\<close> gives a node starts with the name of its type.\<close>

definition id_typed :: "UQRCNode \<Rightarrow> bool" where
  "id_typed n = prefix (type_name (node_type n) @ ''_'') (node_id n)"

text \<open>What \<^verbatim>\<open>establishParenthood\<close> requires of a phrase and the parent it is given, on
  the lower-cased contents: they differ, and one contains the other.\<close>

definition related :: "string \<Rightarrow> string \<Rightarrow> bool" where
  "related pc c = (pc \<noteq> c \<and> (str_includes c pc \<or> str_includes pc c))"

text \<open>Every parent reference of a node of the map is the key of a phrase node.\<close>

definition parent_resolves :: "MemoryStore \<Rightarrow> bool" where
  "parent_resolves s = list_all (\<lambda>a.
     (case parentId (objs s ! a) of
        None \<Rightarrow> True
      | Some p \<Rightarrow> (case getNode p s of
                     None \<Rightarrow> False
                   | Some b \<Rightarrow> node_type (objs s ! b) = TPhrase))) (getAllNodes s)"

text \<open>Every parent reference of a node of the map is the key of a node whose content is
  related to the content of the node.\<close>

definition parent_related :: "MemoryStore \<Rightarrow> bool" where
  "parent_related s = list_all (\<lambda>a.
     (case parentId (objs s ! a) of
        None \<Rightarrow> True
      | Some p \<Rightarrow> (case getNode p s of
                     None \<Rightarrow> False
                   | Some b \<Rightarrow> related (toLowerCase (content (objs s ! b)))
                                      (toLowerCase (content (objs s ! a)))))) (getAllNodes s)"

text \<open>Every node that was created is still in the map: no later node was stored under the
  id of an earlier one (\<^verbatim>\<open>generateId\<close> gives the same id to two contents that differ in
  white space only, when both are created in the same millisecond).\<close>

definition no_displaced :: "MemoryStore \<Rightarrow> bool" where
  "no_displaced s = (length (objs s) = length (nodes s))"

text \<open>The invariant of the graph that the primitives keep.\<close>

definition graph_inv :: "MemoryStore \<Rightarrow> bool" where
  "graph_inv s = (refs_valid s \<and> distinct (map fst (nodes s))
     \<and> list_all (\<lambda>(k, a). node_id (objs s ! a) = k) (nodes s)
     \<and> length (nodes s) \<le> length (objs s)
     \<and> list_all id_typed (objs s)
     \<and> parent_resolves s
     \<and> (no_displaced s \<longrightarrow> parent_related s))"

text \<open>The skeleton of a store: the graph without the values that the field evolution and
  the reinforcement change, which no step of the graph builder reads.\<close>

definition skeleton_node :: "UQRCNode \<Rightarrow> UQRCNode" where
  "skeleton_node n = n\<lparr> fieldValue := 0, stabilityWeight := 0, usageWeight := 0, lastUsedAt := 0 \<rparr>"

definition skeleton :: "MemoryStore \<Rightarrow> MemoryStore" where
  "skeleton s = s\<lparr> objs := map skeleton_node (objs s), fieldState := dead_field,
     stabilityHistory := [] \<rparr>"

text \<open>The skeletons of the stores that \<^verbatim>\<open>learnFrom('ab', 'a')\<close> goes through on a new engine
  whose clock shows the number of the reading: after each of its four ingestions, and after
  the link of the training pair (\<open>skel3\<close>).\<close>

definition skel1 :: MemoryStore where
  "skel1 =
     \<lparr>objs =
        [\<lparr>node_id = ''phrase_ab_0'', content = ''ab'', node_type = TPhrase,
            lengthWeight = 1 / 5, charIndexWeight = 195 / 256,
            stabilityWeight = 0, usageWeight = 0,
            curvatureSignature = tanh (621 / 200000), fieldValue = 0,
            parentId = None, childIds = [],
            linkStrengths = [(''phrase_ab_0'', 1)], createdAt = 1,
            lastUsedAt = 0\<rparr>],
        nodes = [(''phrase_ab_0'', 0)],
        edges =
          [\<lparr>fromId = ''phrase_ab_0'', toId = ''phrase_ab_0'', strength = 1,
              edge_curvature = 0, isSequential = False\<rparr>],
        fieldState = dead_field,
        stabilityHistory = [], clock = \<lambda>n. n, ticks = 4\<rparr>"

definition skel2 :: MemoryStore where
  "skel2 =
     \<lparr>objs =
        [\<lparr>node_id = ''phrase_ab_0'', content = ''ab'', node_type = TPhrase,
            lengthWeight = 1 / 5, charIndexWeight = 195 / 256,
            stabilityWeight = 0, usageWeight = 0,
            curvatureSignature = tanh (621 / 200000), fieldValue = 0,
            parentId = None, childIds = [''phrase_a_4''],
            linkStrengths = [(''phrase_ab_0'', 1), (''phrase_a_4'', 1)],
            createdAt = 1, lastUsedAt = 0\<rparr>,
         \<lparr>node_id = ''phrase_a_4'', content = ''a'', node_type = TPhrase,
            lengthWeight = 1 / 10, charIndexWeight = 97 / 128,
            stabilityWeight = 0, usageWeight = 0,
            curvatureSignature = tanh (97 / 1000000), fieldValue = 0,
            parentId = Some ''phrase_ab_0'', childIds = [],
            linkStrengths = [(''phrase_a_4'', 1), (''phrase_ab_0'', 1)],
            createdAt = 5, lastUsedAt = 0\<rparr>],
        nodes = [(''phrase_ab_0'', 0), (''phrase_a_4'', 1)],
        edges =
          [\<lparr>fromId = ''phrase_ab_0'', toId = ''phrase_ab_0'', strength = 1,
              edge_curvature = 0, isSequential = False\<rparr>,
           \<lparr>fromId = ''phrase_a_4'', toId = ''phrase_a_4'', strength = 1,
              edge_curvature = 0, isSequential = False\<rparr>,
           \<lparr>fromId = ''phrase_ab_0'', toId = ''phrase_a_4'', strength = 1,
              edge_curvature = tanh (621 / 200000) - tanh (97 / 1000000),
              isSequential = False\<rparr>],
        fieldState = dead_field,
        stabilityHistory = [], clock = \<lambda>n. n, ticks = 8\<rparr>"

definition skel3 :: MemoryStore where
  "skel3 =
     \<lparr>objs =
            [\<lparr>node_id = ''phrase_ab_0'', content = ''ab'', node_type = TPhrase,
                lengthWeight = 1 / 5, charIndexWeight = 195 / 256,
                stabilityWeight = 0, usageWeight = 0,
                curvatureSignature = tanh (621 / 200000), fieldValue = 0,
                parentId = None, childIds = [''phrase_a_4''],
                linkStrengths = [(''phrase_ab_0'', 1), (''phrase_a_4'', 1)],
                createdAt = 1, lastUsedAt = 0\<rparr>,
             \<lparr>node_id = ''phrase_a_4'', content = ''a'', node_type = TPhrase,
                lengthWeight = 1 / 10, charIndexWeight = 97 / 128,
                stabilityWeight = 0, usageWeight = 0,
                curvatureSignature = tanh (97 / 1000000), fieldValue = 0,
                parentId = Some ''phrase_ab_0'', childIds = [],
                linkStrengths = [(''phrase_a_4'', 1), (''phrase_ab_0'', 1)],
                createdAt = 5, lastUsedAt = 0\<rparr>],
            nodes = [(''phrase_ab_0'', 0), (''phrase_a_4'', 1)],
            edges =
              [\<lparr>fromId = ''phrase_ab_0'', toId = ''phrase_ab_0'', strength = 1,
                  edge_curvature = 0, isSequential = False\<rparr>,
               \<lparr>fromId = ''phrase_a_4'', toId = ''phrase_a_4'', strength = 1,
                  edge_curvature = 0, isSequential = False\<rparr>,
               \<lparr>fromId = ''phrase_ab_0'', toId = ''phrase_a_4'',
                  strength = 11 / 10,
                  edge_curvature = tanh (621 / 200000) - tanh (97 / 1000000),
                  isSequential = False\<rparr>],
            fieldState = dead_field,
            stabilityHistory = [], clock = \<lambda>n. n, ticks = 8\<rparr>"

definition skel4 :: MemoryStore where
  "skel4 =
     \<lparr>objs =
        [\<lparr>node_id = ''phrase_ab_0'', content = ''ab'', node_type = TPhrase,
            lengthWeight = 1 / 5, charIndexWeight = 195 / 256,
            stabilityWeight = 0, usageWeight = 0,
            curvatureSignature = tanh (621 / 200000), fieldValue = 0,
            parentId = Some ''phrase_a_4'', childIds = [''phrase_a_4''],
            linkStrengths = [(''phrase_ab_0'', 1), (''phrase_a_4'', 1)],
            createdAt = 1, lastUsedAt = 0\<rparr>,
         \<lparr>node_id = ''phrase_a_4'', content = ''a'', node_type = TPhrase,
            lengthWeight = 1 / 10, charIndexWeight = 97 / 128,
            stabilityWeight = 0, usageWeight = 0,
            curvatureSignature = tanh (97 / 1000000), fieldValue = 0,
            parentId = Some ''phrase_ab_0'', childIds = [''phrase_ab_0''],
            linkStrengths = [(''phrase_a_4'', 1), (''phrase_ab_0'', 1)],
            createdAt = 5, lastUsedAt = 0\<rparr>],
        nodes = [(''phrase_ab_0'', 0), (''phrase_a_4'', 1)],
        edges =
          [\<lparr>fromId = ''phrase_ab_0'', toId = ''phrase_ab_0'',
              strength = 11 / 10, edge_curvature = 0, isSequential = False\<rparr>,
           \<lparr>fromId = ''phrase_a_4'', toId = ''phrase_a_4'', strength = 1,
              edge_curvature = 0, isSequential = False\<rparr>,
           \<lparr>fromId = ''phrase_ab_0'', toId = ''phrase_a_4'',
              strength = 11 / 10,
              edge_curvature = tanh (621 / 200000) - tanh (97 / 1000000),
              isSequential = False\<rparr>,
           \<lparr>fromId = ''phrase_a_4'', toId = ''phrase_ab_0'', strength = 1,
              edge_curvature = tanh (621 / 200000) - tanh (97 / 1000000),
              isSequential = False\<rparr>],
        fieldState = dead_field,
        stabilityHistory = [], clock = \<lambda>n. n, ticks = 10\<rparr>"

definition skel5 :: MemoryStore where
  "skel5 =
     \<lparr>objs =
        [\<lparr>node_id = ''phrase_ab_0'', content = ''ab'', node_type = TPhrase,
            lengthWeight = 1 / 5, charIndexWeight = 195 / 256,
            stabilityWeight = 0, usageWeight = 0,
            curvatureSignature = tanh (621 / 200000), fieldValue = 0,
            parentId = Some ''phrase_a_4'', childIds = [''phrase_a_4''],
            linkStrengths = [(''phrase_ab_0'', 1), (''phrase_a_4'', 1)],
            createdAt = 1, lastUsedAt = 0\<rparr>,
         \<lparr>node_id = ''phrase_a_4'', content = ''a'', node_type = TPhrase,
            lengthWeight = 1 / 10, charIndexWeight = 97 / 128,
            stabilityWeight = 0, usageWeight = 0,
            curvatureSignature = tanh (97 / 1000000), fieldValue = 0,
            parentId = Some ''phrase_ab_0'', childIds = [''phrase_ab_0''],
            linkStrengths = [(''phrase_a_4'', 1), (''phrase_ab_0'', 1)],
            createdAt = 5, lastUsedAt = 0\<rparr>],
        nodes = [(''phrase_ab_0'', 0), (''phrase_a_4'', 1)],
        edges =
          [\<lparr>fromId = ''phrase_ab_0'', toId = ''phrase_ab_0'',
              strength = 11 / 10, edge_curvature = 0, isSequential = False\<rparr>,
           \<lparr>fromId = ''phrase_a_4'', toId = ''phrase_a_4'',
              strength = 11 / 10, edge_curvature = 0, isSequential = False\<rparr>,
           \<lparr>fromId = ''phrase_ab_0'', toId = ''phrase_a_4'',
              strength = 11 / 10,
              edge_curvature = tanh (621 / 200000) - tanh (97 / 1000000),
              isSequential = False\<rparr>,
           \<lparr>fromId = ''phrase_a_4'', toId = ''phrase_ab_0'', strength = 1,
              edge_curvature = tanh (621 / 200000) - tanh (97 / 1000000),
              isSequential = False\<rparr>],
        fieldState = dead_field,
        stabilityHistory = [], clock = \<lambda>n. n, ticks = 12\<rparr>"

section \<open>Properties\<close>

subsection \<open>The stability filter\<close>

lemma passesParentDominanceCheck_True: "passesParentDominanceCheck s ids"
  by (induction ids) (simp_all split: option.split)

text \<open>
  C2. A candidate is stable exactly when its curvature is below the curvature threshold in
  absolute value, its content and its list of node ids are not empty, and its score is
  above the stability threshold; the parent-dominance check accepts every list of node ids.
\<close>

theorem isStable_iff:
  "(isStable cfg s cand \<longleftrightarrow>
      \<bar>cand_curvature cand\<bar> < curvatureThreshold cfg \<and> cand_content cand \<noteq> [] \<and>
      nodeIds cand \<noteq> [] \<and> score cand > stabilityThreshold cfg)
   \<and> passesParentDominanceCheck s (nodeIds cand)"
  by (simp add: isStable_def passesCurvatureCheck_def passesMinimalLengthCheck_def
      passesStabilityThreshold_def passesParentDominanceCheck_True)

theorem isStable_iff_witness:
  "isStable default_config (new_store (\<lambda>n. n) 0) example_candidate
   \<and> \<not> isStable default_config (new_store (\<lambda>n. n) 0) (example_candidate\<lparr> score := 3 / 10 \<rparr>)
   \<and> passesParentDominanceCheck (new_store (\<lambda>n. n) 0) (nodeIds example_candidate)"
  using isStable_iff [of default_config "new_store (\<lambda>n. n) 0" example_candidate]
    isStable_iff [of default_config "new_store (\<lambda>n. n) 0" "example_candidate\<lparr> score := 3 / 10 \<rparr>"]
  by (simp add: example_candidate_def default_config_def)

subsection \<open>The field update\<close>

lemma foldl_add_sum_list: "foldl (\<lambda>sum g. sum + g) a xs = a + sum_list (xs :: real list)"
  by (induction xs arbitrary: a) simp_all

lemma slice_last_drop: "slice_last n xs = drop (length xs - n) xs"
  by (simp add: slice_last_def nat_diff_distrib' max_def)

text \<open>
  C3. \<^verbatim>\<open>updateField\<close> returns the state whose \<open>u\<close> is the old \<open>u\<close> plus \<open>evolve\<close> plus the
  sum of the old gradients plus \<open>lambda\<close> times the second-gradient stability of the
  history; whose gradients are the old ones with the increment of \<open>u\<close> appended, cut to the
  last 10; whose curvature is \<^verbatim>\<open>calculateCurvature\<close> of the indices of the old gradients
  followed by the new \<open>u\<close>; and whose stability is \<open>1 / (1 + |second gradient|)\<close>.
\<close>

theorem updateField_formula:
  "(let sg = secondGradientStability hist;
        newU = field_u st + evolve cfg node nfv ncv + sum_list (gradients st) + lambda cfg * sg;
        appended = gradients st @ [newU - field_u st];
        r = updateField cfg st node nfv ncv hist
    in field_u r = newU
       \<and> gradients r = drop (length appended - 10) appended
       \<and> length (gradients r) \<le> 10
       \<and> field_curvature r = calculateCurvature (map real [0..<length (gradients st)] @ [newU])
       \<and> stability r = 1 / (1 + \<bar>sg\<bar>))"
  by (simp add: updateField_def Let_def foldl_add_sum_list slice_last_drop)

theorem updateField_formula_witness:
  "(let r = updateField default_config example_field example_node [] [] [1, 0, 1]
    in field_u r = 113 / 10
       \<and> gradients r = [1, 1, 1, 1, 1, 1, 1, 1, 1, 103 / 10]
       \<and> stability r = 1 / 5)"
  using updateField_formula [of "[1, 0, 1]" example_field default_config example_node "[]" "[]"]
  by (simp add: Let_def example_field_def example_node_def default_config_def
      secondGradientStability_def discreteDerivative_def evolve_def laplacianSmoothing_def
      curvatureInfluence_def linguisticStability_def)

subsection \<open>Evaluation of the definitions on concrete inputs\<close>

lemmas eval_store = isWhitespace_def isUpper_def lowerChar_def toLowerCase_def trim_def
  digits.simps calculateLengthWeight_def calculateCharIndexWeight_def
  calculateInitialStabilityWeight_def calculateInitialUsageWeight_def hash_step_def
  calculateCurvatureSignature_def dead_field_def new_store_def dateNow_def
  tick_def update_obj_def type_name_def generateId_def getNode_def getAllNodes_def
  getPhraseNodes_def findNodeByContent_def truthy_def createNode_def createEdge_def Let_def

lemmas eval_graph = isPunctuation_def isAlnum_def isWord_def tokenize_def parenthood_step_def
  establishParenthood_def processInput_def

lemma store_a_eval:
  "store_a = \<lparr>objs =
         [\<lparr>node_id = ''phrase_a_0'', content = ''a'', node_type = TPhrase,
             lengthWeight = 1 / 10, charIndexWeight = 97 / 128,
             stabilityWeight = 1, usageWeight = 2,
             curvatureSignature = tanh (97 / 1000000), fieldValue = 0,
             parentId = None, childIds = [],
             linkStrengths = [(''phrase_a_0'', 1)], createdAt = 1,
             lastUsedAt = 3\<rparr>],
         nodes = [(''phrase_a_0'', 0)],
         edges =
           [\<lparr>fromId = ''phrase_a_0'', toId = ''phrase_a_0'', strength = 1,
               edge_curvature = 0, isSequential = False\<rparr>],
         fieldState =
           \<lparr>field_u = 0, gradients = [], field_curvature = 0, stability = 1\<rparr>,
         stabilityHistory = [], clock = \<lambda>n. n, ticks = 4\<rparr>"
  by (simp add: store_a_def eval_store eval_graph)

subsection \<open>Deduplication of nodes\<close>

lemma findNodeByContent_alt:
  "findNodeByContent c s = find (\<lambda>a. normalizedContent s a = trim (toLowerCase c)) (getAllNodes s)"
  by (simp add: findNodeByContent_def normalizedContent_def Let_def)

lemma content_update_obj:
  "(\<And>n. content (f n) = content n) \<Longrightarrow> content (objs (update_obj a f s) ! b) = content (objs s ! b)"
  by (cases "a < length (objs s)"; cases "b = a") (simp_all add: update_obj_def list_update_beyond)

lemma find_cong_same: "(\<And>x. x \<in> set xs \<Longrightarrow> P x = Q x) \<Longrightarrow> find P xs = find Q xs"
  by (induction xs) simp_all

lemma find_update_new:
  "P a \<Longrightarrow> (\<And>b. b \<in> snd ` set al \<Longrightarrow> \<not> P b) \<Longrightarrow> find P (map snd (AList.update k a al)) = Some a"
  by (induction al) (auto)

lemma find_None_all: "find P xs = None \<Longrightarrow> x \<in> set xs \<Longrightarrow> \<not> P x"
  by (induction xs) (auto split: if_splits)

lemma createNode_then_find:
  assumes "refs_valid s" and "trim (toLowerCase c2) = trim (toLowerCase c1)"
    and "createNode c1 t1 p1 s = (a, s1)"
  shows "findNodeByContent c2 s1 = Some a \<and> a < length (objs s1)"
proof (cases "findNodeByContent c1 s")
  case (Some a')
  then have a': "a' \<in> set (getAllNodes s)"
    by (auto simp: findNodeByContent_def Let_def find_Some_iff)
  with assms(1) have lt: "a' < length (objs s)"
    by (simp add: refs_valid_def list_all_iff)
  from Some assms(3) have eq: "a = a'"
    and s1: "s1 = tick 1 (update_obj a'
       (\<lambda>n. n\<lparr> usageWeight := usageWeight n + 1, lastUsedAt := dateNow s \<rparr>) s)"
    by (auto simp: createNode_def)
  have "normalizedContent s1 b = normalizedContent s b" for b
    unfolding s1 normalizedContent_def
    by (cases "b = a'") (simp_all add: tick_def update_obj_def lt)
  moreover have "getAllNodes s1 = getAllNodes s"
    by (simp add: s1 getAllNodes_def tick_def update_obj_def)
  ultimately have "findNodeByContent c2 s1 = findNodeByContent c1 s"
    by (simp add: findNodeByContent_alt assms(2))
  with Some eq lt show ?thesis by (simp add: s1 tick_def update_obj_def)
next
  case None
  define node where "node = \<lparr> node_id = generateId c1 t1 (clock s (ticks s)),
                 content = c1, node_type = t1,
                 lengthWeight = calculateLengthWeight c1,
                 charIndexWeight = calculateCharIndexWeight c1,
                 stabilityWeight = calculateInitialStabilityWeight,
                 usageWeight = calculateInitialUsageWeight,
                 curvatureSignature = calculateCurvatureSignature c1,
                 fieldValue = field_u (fieldState s),
                 parentId = p1, childIds = [], linkStrengths = [],
                 createdAt = clock s (ticks s + 1), lastUsedAt = clock s (ticks s + 2) \<rparr>"
  define s0 where "s0 = tick 3 (s\<lparr> objs := objs s @ [node],
                      nodes := AList.update (node_id node) (length (objs s)) (nodes s) \<rparr>)"
  have "createNode c1 t1 p1 s = (length (objs s),
            if truthy p1
            then (case getNode (the p1) s0 of
                    Some pa \<Rightarrow> update_obj pa
                      (\<lambda>n. n\<lparr> childIds := childIds n @ [node_id node] \<rparr>) s0
                  | None \<Rightarrow> s0)
            else s0)"
    unfolding createNode_def None node_def s0_def
    by (simp add: Let_def cong: option.case_cong if_cong)
  with assms(3) have eq: "a = length (objs s)"
    and s1: "s1 = (if truthy p1
                     then (case getNode (the p1) s0 of
                             Some pa \<Rightarrow> update_obj pa
                               (\<lambda>n. n\<lparr> childIds := childIds n @ [node_id node] \<rparr>) s0
                           | None \<Rightarrow> s0)
                     else s0)"
    by simp_all
  have nc1: "normalizedContent s1 b = normalizedContent s0 b" for b
    unfolding s1 normalizedContent_def
    by (auto simp: content_update_obj split: option.split)
  have all1: "getAllNodes s1 = getAllNodes s0"
    unfolding s1 by (auto simp: getAllNodes_def update_obj_def split: option.split)
  have len1: "length (objs s1) = length (objs s0)"
    unfolding s1 by (auto simp: update_obj_def split: option.split)
  have P_new: "normalizedContent s0 (length (objs s)) = trim (toLowerCase c1)"
    by (simp add: normalizedContent_def s0_def tick_def node_def)
  have P_old: "normalizedContent s0 b \<noteq> trim (toLowerCase c1)" if "b \<in> snd ` set (nodes s)" for b
  proof -
    from that assms(1) have "b < length (objs s)"
      by (auto simp: refs_valid_def list_all_iff getAllNodes_def)
    then have "normalizedContent s0 b = normalizedContent s b"
      by (simp add: normalizedContent_def s0_def tick_def nth_append)
    moreover from that have "b \<in> set (getAllNodes s)" by (auto simp: getAllNodes_def)
    ultimately show ?thesis
      using find_None_all [OF None [unfolded findNodeByContent_alt]] by simp
  qed
  have "find (\<lambda>b. normalizedContent s0 b = trim (toLowerCase c1))
          (map snd (AList.update (node_id node) (length (objs s)) (nodes s))) = Some (length (objs s))"
    by (rule find_update_new) (use P_new P_old in auto)
  then have "findNodeByContent c2 s0 = Some (length (objs s))"
    by (simp add: findNodeByContent_alt assms(2) getAllNodes_def s0_def tick_def)
  then have "findNodeByContent c2 s1 = Some (length (objs s))"
    by (simp add: findNodeByContent_alt nc1 all1)
  moreover have "length (objs s) < length (objs s1)"
    by (simp add: len1 s0_def tick_def)
  ultimately show ?thesis by (simp add: eq)
qed

text \<open>
  C4. After \<^verbatim>\<open>createNode\<close> with some content, \<^verbatim>\<open>createNode\<close> with a content of the same
  normalised form (lower case, trimmed), of any type and parent, returns the same node and
  changes nothing but that node's usage weight, which grows by 1, its \<^verbatim>\<open>lastUsedAt\<close>,
  which is the time read, and the clock: no key and no object is added.
\<close>

theorem createNode_twice:
  assumes "refs_valid s" and "trim (toLowerCase c2) = trim (toLowerCase c1)"
    and "createNode c1 t1 p1 s = (a, s1)"
  shows "createNode c2 t2 p2 s1 =
           (a, s1\<lparr> objs := (objs s1)[a := (objs s1 ! a)\<lparr>
                        usageWeight := usageWeight (objs s1 ! a) + 1,
                        lastUsedAt := clock s1 (ticks s1) \<rparr>],
                   ticks := ticks s1 + 1 \<rparr>)
         \<and> a < length (objs s1)"
  using createNode_then_find [OF assms]
  by (simp add: createNode_def update_obj_def tick_def dateNow_def)

theorem createNode_twice_witness:
  "refs_valid (new_store (\<lambda>n. n) 0)
   \<and> trim (toLowerCase '' hello'') = trim (toLowerCase ''Hello '')
   \<and> fst (createNode ''Hello '' TWord None (new_store (\<lambda>n. n) 0)) = 0
   \<and> fst (createNode '' hello'' TPhrase None
           (snd (createNode ''Hello '' TWord None (new_store (\<lambda>n. n) 0)))) = 0
   \<and> map usageWeight (objs (snd (createNode '' hello'' TPhrase None
           (snd (createNode ''Hello '' TWord None (new_store (\<lambda>n. n) 0)))))) = [2]"
proof -
  have h1: "refs_valid (new_store (\<lambda>n. n) 0)"
    by (simp add: refs_valid_def new_store_def getAllNodes_def)
  have h2: "trim (toLowerCase '' hello'') = trim (toLowerCase ''Hello '')"
    by (simp add: eval_store)
  have h3: "createNode ''Hello '' TWord None (new_store (\<lambda>n. n) 0) =
     (fst (createNode ''Hello '' TWord None (new_store (\<lambda>n. n) 0)),
      snd (createNode ''Hello '' TWord None (new_store (\<lambda>n. n) 0)))"
    by simp
  have e1: "fst (createNode ''Hello '' TWord None (new_store (\<lambda>n. n) 0)) = 0"
    by (simp add: eval_store)
  have e2: "map usageWeight (objs (snd (createNode '' hello'' TPhrase None
           (snd (createNode ''Hello '' TWord None (new_store (\<lambda>n. n) 0)))))) = [2]"
    by (simp add: eval_store)
  from createNode_twice [OF h1 h2 h3, of TPhrase None]
  have "fst (createNode '' hello'' TPhrase None
           (snd (createNode ''Hello '' TWord None (new_store (\<lambda>n. n) 0)))) =
        fst (createNode ''Hello '' TWord None (new_store (\<lambda>n. n) 0))"
    by simp
  with e1 e2 h1 h2 show ?thesis by simp
qed

subsection \<open>Strengthening an edge\<close>

text \<open>
  C5, at the input that fails. On a store with the word nodes of \<open>a\<close> and \<open>b\<close>, the first
  \<^verbatim>\<open>createEdge\<close> for the pair creates the edge of strength 1 and writes 1 into both
  nodes' link strengths; the second call raises the strength of the edge to 1.1 and leaves
  every node object as it was, so both maps still hold 1.
\<close>

theorem createEdge_repeated_links_stale:
  "(let s1 = createEdge ''word_a_0'' ''word_b_3'' True two_words;
        s2 = createEdge ''word_a_0'' ''word_b_3'' True s1
    in map strength (edges s1) = [1] \<and> map strength (edges s2) = [11 / 10]
       \<and> linkStrengths (objs s1 ! 0) = [(''word_b_3'', 1)]
       \<and> linkStrengths (objs s1 ! 1) = [(''word_a_0'', 1)]
       \<and> objs s2 = objs s1)"
  by (simp add: two_words_def eval_store)

subsection \<open>Matching phrases\<close>

lemma set_insert_cmp: "set (insert_cmp cmp x ys) = insert x (set ys)"
  by (induction ys) auto
lemma length_insert_cmp: "length (insert_cmp cmp x ys) = Suc (length ys)"
  by (induction ys) auto
lemma set_sort_cmp: "set (sort_cmp cmp xs) = set xs"
  by (induction xs) (simp_all add: sort_cmp_def set_insert_cmp)
lemma length_sort_cmp: "length (sort_cmp cmp xs) = length xs"
  by (induction xs) (simp_all add: sort_cmp_def length_insert_cmp)

lemma sorted_insert_key:
  "sorted_wrt (\<lambda>x y. k x \<ge> k y) ys \<Longrightarrow>
   sorted_wrt (\<lambda>x y. k x \<ge> (k y :: real)) (insert_cmp (\<lambda>a b. k b - k a) x ys)"
  by (induction ys) (auto simp: set_insert_cmp)

lemma sorted_sort_key:
  "sorted_wrt (\<lambda>x y. k x \<ge> (k y :: real)) (sort_cmp (\<lambda>a b. k b - k a) xs)"
  by (induction xs) (simp_all add: sort_cmp_def sorted_insert_key)

lemma phrase_match_spec:
  "phrase_match normalized s a =
     (if spec_admits normalized (toLowerCase (content (objs s ! a)))
      then Some (a, spec_score normalized (toLowerCase (content (objs s ! a)))) else None)"
  by (simp add: phrase_match_def spec_admits_def spec_score_def shared_words_def Let_def
      length_remdups_card_conv)

lemma scored_matches_spec:
  "scored_matches input s =
     map (\<lambda>a. (a, spec_score (trim (toLowerCase input)) (toLowerCase (content (objs s ! a)))))
       (filter (\<lambda>a. spec_admits (trim (toLowerCase input)) (toLowerCase (content (objs s ! a))))
          (getPhraseNodes s))"
  unfolding scored_matches_def
  by (induction "getPhraseNodes s") (simp_all add: List.map_filter_def phrase_match_spec comp_def)

text \<open>
  C6, as the claim states it, fails: for the empty input the phrase \<open>a\<close> is matched by
  containment with score 0, and it is in the result.
\<close>

theorem findMatchingPhrases_keeps_zero_score:
  "scored_matches [] store_a = [(0, 0)] \<and> findMatchingPhrases [] store_a = [0]"
  by (simp add: store_a_eval findMatchingPhrases_def scored_matches_def phrase_match_def
      sort_cmp_def List.map_filter_def getPhraseNodes_def getAllNodes_def trim_def toLowerCase_def
      lowerChar_def isUpper_def)

text \<open>
  C6, amended. Every match that \<^verbatim>\<open>findMatchingPhrases\<close> scores has the score of the
  specification: 1 for an exact normalised match, else the ratio of the lengths when one
  string contains the other, else half the shared word count over the larger of the number
  of distinct input words and the number of phrase words. The result holds exactly the
  stored phrases that match in one of these three ways, each as often as it is stored (a
  phrase matched by containment stays in the result when its score is 0), and it is sorted
  by descending score.
\<close>

theorem findMatchingPhrases_spec:
  "(let normalized = trim (toLowerCase input);
        phraseContent = (\<lambda>a. toLowerCase (content (objs s ! a)));
        result = findMatchingPhrases input s
    in map snd (scored_matches input s) =
         map (\<lambda>a. spec_score normalized (phraseContent a)) (map fst (scored_matches input s))
       \<and> set result = {a \<in> set (getPhraseNodes s). spec_admits normalized (phraseContent a)}
       \<and> length result = length (filter (\<lambda>a. spec_admits normalized (phraseContent a)) (getPhraseNodes s))
       \<and> sorted_wrt (\<lambda>a b. spec_score normalized (phraseContent a)
                             \<ge> spec_score normalized (phraseContent b)) result)"
proof -
  define normalized where "normalized = trim (toLowerCase input)"
  define sc where "sc = (\<lambda>a. spec_score normalized (toLowerCase (content (objs s ! a))))"
  define adm where "adm = (\<lambda>a. spec_admits normalized (toLowerCase (content (objs s ! a))))"
  have sm: "scored_matches input s = map (\<lambda>a. (a, sc a)) (filter adm (getPhraseNodes s))"
    by (simp add: scored_matches_spec sc_def adm_def normalized_def)
  have snd_sc: "snd p = sc (fst p)" if "p \<in> set (scored_matches input s)" for p
    using that by (auto simp: sm)
  have "sorted_wrt (\<lambda>x y. snd x \<ge> snd y) (sort_cmp (\<lambda>a b. snd b - snd a) (scored_matches input s))"
    by (rule sorted_sort_key)
  then have "sorted_wrt (\<lambda>x y. sc (fst x) \<ge> sc (fst y))
               (sort_cmp (\<lambda>a b. snd b - snd a) (scored_matches input s))"
    by (rule sorted_wrt_mono_rel [rotated]) (auto simp: set_sort_cmp snd_sc)
  then have sorted: "sorted_wrt (\<lambda>a b. sc a \<ge> sc b) (findMatchingPhrases input s)"
    by (simp add: findMatchingPhrases_def sorted_wrt_map)
  have set: "set (findMatchingPhrases input s) = {a \<in> set (getPhraseNodes s). adm a}"
    by (simp add: findMatchingPhrases_def set_sort_cmp sm image_image)
  have len: "length (findMatchingPhrases input s) = length (filter adm (getPhraseNodes s))"
    by (simp add: findMatchingPhrases_def length_sort_cmp sm)
  have scores: "map snd (scored_matches input s) = map sc (map fst (scored_matches input s))"
    by (simp add: sm comp_def)
  from scores set len sorted show ?thesis
    by (simp add: Let_def sc_def adm_def normalized_def)
qed

theorem findMatchingPhrases_spec_witness:
  "findMatchingPhrases ''A '' store_a = [0]
   \<and> map snd (scored_matches ''A '' store_a) = [1]
   \<and> set (findMatchingPhrases ''A '' store_a) =
       {a \<in> set (getPhraseNodes store_a).
          spec_admits (trim (toLowerCase ''A '')) (toLowerCase (content (objs store_a ! a)))}"
  using findMatchingPhrases_spec [of "''A ''" store_a]
  by (simp add: Let_def store_a_eval findMatchingPhrases_def scored_matches_def phrase_match_def
      sort_cmp_def List.map_filter_def getPhraseNodes_def getAllNodes_def trim_def
      toLowerCase_def lowerChar_def isUpper_def isWhitespace_def)

subsection \<open>Invariants of the primitive steps\<close>

lemma preserved_createNode: "preserved I \<Longrightarrow> I s \<Longrightarrow> I (snd (createNode c t None s))"
  by (simp add: preserved_def)

lemma preserved_createEdge: "preserved I \<Longrightarrow> I s \<Longrightarrow> I (createEdge f t sq s)"
  by (simp add: preserved_def)

lemma preserved_parenthood_step:
  "preserved I \<Longrightarrow> I s \<Longrightarrow> np < length (objs s) \<Longrightarrow> ex \<in> set (getPhraseNodes s)
   \<Longrightarrow> I (parenthood_step np ex s)"
  by (simp add: preserved_def)

lemma preserved_evolve_step: "preserved I \<Longrightarrow> I s \<Longrightarrow> I (evolve_step cs h a s)"
  by (simp add: preserved_def)

lemma preserved_reinforce_node: "preserved I \<Longrightarrow> I s \<Longrightarrow> I (reinforce_node a s)"
  by (simp add: preserved_def)

lemma preserved_tick: "preserved I \<Longrightarrow> I s \<Longrightarrow> I (tick k s)"
  by (simp add: preserved_def)

lemma preserved_clear: "preserved I \<Longrightarrow> I s \<Longrightarrow> I (clear s)"
  by (simp add: preserved_def)

lemma preserved_refs_valid: "preserved I \<Longrightarrow> I s \<Longrightarrow> refs_valid s"
  by (simp add: preserved_def)

subsection \<open>What the primitives leave alone\<close>

lemma field_update_obj:
  "(\<And>n. F (f n) = F n) \<Longrightarrow> F (objs (update_obj a f s) ! b) = F (objs s ! b)"
  by (cases "a < length (objs s)"; cases "b = a") (simp_all add: update_obj_def list_update_beyond)

lemma update_obj_frame [simp]:
  "nodes (update_obj a f s) = nodes s" "edges (update_obj a f s) = edges s"
  "fieldState (update_obj a f s) = fieldState s"
  "stabilityHistory (update_obj a f s) = stabilityHistory s"
  "clock (update_obj a f s) = clock s" "ticks (update_obj a f s) = ticks s"
  "length (objs (update_obj a f s)) = length (objs s)"
  "getAllNodes (update_obj a f s) = getAllNodes s"
  "getNode i (update_obj a f s) = getNode i s"
  by (simp_all add: update_obj_def getAllNodes_def getNode_def)

lemma createEdge_frame [simp]:
  "nodes (createEdge f t sq s) = nodes s"
  "fieldState (createEdge f t sq s) = fieldState s"
  "stabilityHistory (createEdge f t sq s) = stabilityHistory s"
  "clock (createEdge f t sq s) = clock s" "ticks (createEdge f t sq s) = ticks s"
  "length (objs (createEdge f t sq s)) = length (objs s)"
  "getAllNodes (createEdge f t sq s) = getAllNodes s"
  "getNode i (createEdge f t sq s) = getNode i s"
  by (simp_all add: createEdge_def getAllNodes_def getNode_def Let_def split: option.split)

lemma field_createEdge:
  assumes "\<And>n g. F (linkStrengths_update g n) = F n"
  shows "F (objs (createEdge f t sq s) ! b) = F (objs s ! b)"
  by (simp add: createEdge_def Let_def field_update_obj assms split: option.split)

lemma parenthood_step_frame [simp]:
  "nodes (parenthood_step np ex s) = nodes s"
  "fieldState (parenthood_step np ex s) = fieldState s"
  "stabilityHistory (parenthood_step np ex s) = stabilityHistory s"
  "clock (parenthood_step np ex s) = clock s" "ticks (parenthood_step np ex s) = ticks s"
  "length (objs (parenthood_step np ex s)) = length (objs s)"
  "getAllNodes (parenthood_step np ex s) = getAllNodes s"
  "getNode i (parenthood_step np ex s) = getNode i s"
  by (simp_all add: parenthood_step_def Let_def)

lemma field_parenthood_step:
  assumes "\<And>n g. F (linkStrengths_update g n) = F n"
    and "\<And>n g. F (parentId_update g n) = F n"
    and "\<And>n g. F (childIds_update g n) = F n"
  shows "F (objs (parenthood_step np ex s) ! b) = F (objs s ! b)"
  by (simp add: parenthood_step_def Let_def field_update_obj field_createEdge assms)

lemma getPhraseNodes_parenthood_step [simp]:
  "getPhraseNodes (parenthood_step np ex s) = getPhraseNodes s"
  by (simp add: getPhraseNodes_def field_parenthood_step)

lemma evolve_step_frame [simp]:
  "nodes (evolve_step cs h a s) = nodes s"
  "edges (evolve_step cs h a s) = edges s"
  "clock (evolve_step cs h a s) = clock s" "ticks (evolve_step cs h a s) = ticks s"
  "length (objs (evolve_step cs h a s)) = length (objs s)"
  "getAllNodes (evolve_step cs h a s) = getAllNodes s"
  "getNode i (evolve_step cs h a s) = getNode i s"
  by (simp_all add: evolve_step_def updateNodeFieldValue_def updateFieldState_def Let_def
      getAllNodes_def getNode_def split: option.split)

lemma field_evolve_step:
  assumes "\<And>n g. F (fieldValue_update g n) = F n"
  shows "F (objs (evolve_step cs h a s) ! b) = F (objs s ! b)"
proof -
  have "objs (updateFieldState ns s) = objs s" for ns
    by (simp add: updateFieldState_def Let_def)
  then show ?thesis
    by (simp add: evolve_step_def updateNodeFieldValue_def Let_def field_update_obj assms
        split: option.split)
qed

lemma length_objs_createNode: "length (objs s) \<le> length (objs (snd (createNode c t p s)))"
  by (simp add: createNode_def Let_def tick_def split: option.split)

lemma createNode_ref_valid:
  "refs_valid s \<Longrightarrow> fst (createNode c t p s) < length (objs (snd (createNode c t p s)))"
  using createNode_then_find [of s c c t p "fst (createNode c t p s)" "snd (createNode c t p s)"]
  by simp

subsection \<open>Lifting an invariant of the primitives to the public operations\<close>

lemma process_tokens_Cons:
  "process_tokens ph (tok # toks) prev created s =
     process_tokens ph toks (Some (token_node tok s)) (created @ [token_node tok s])
       (token_state ph tok prev s)"
  by (simp add: token_node_def token_state_def Let_def split_beta)

lemma token_state_preserved: "preserved I \<Longrightarrow> I s \<Longrightarrow> I (token_state ph tok prev s)"
  by (cases prev) (simp_all add: token_state_def Let_def preserved_createNode preserved_createEdge)

lemma token_state_length: "length (objs s) \<le> length (objs (token_state ph tok prev s))"
  by (cases prev) (simp_all add: token_state_def Let_def length_objs_createNode)

lemma process_tokens_preserved:
  "preserved I \<Longrightarrow> I s \<Longrightarrow> I (snd (process_tokens ph toks prev created s))"
proof (induction toks arbitrary: prev created s)
  case Nil
  then show ?case by simp
next
  case (Cons tok toks)
  then show ?case
    unfolding process_tokens_Cons by (simp add: token_state_preserved)
qed

lemma process_tokens_length:
  "length (objs s) \<le> length (objs (snd (process_tokens ph toks prev created s)))"
proof (induction toks arbitrary: prev created s)
  case Nil
  then show ?case by simp
next
  case (Cons tok toks)
  show ?case
    unfolding process_tokens_Cons
    by (rule order_trans [OF token_state_length Cons.IH])
qed

lemma parenthood_fold_preserved:
  "preserved I \<Longrightarrow> I s \<Longrightarrow> np < length (objs s) \<Longrightarrow> set xs \<subseteq> set (getPhraseNodes s)
   \<Longrightarrow> I (fold (parenthood_step np) xs s)"
proof (induction xs arbitrary: s)
  case Nil
  then show ?case by simp
next
  case (Cons x xs)
  from Cons.prems have "I (parenthood_step np x s)"
    by (simp add: preserved_parenthood_step)
  with Cons.prems show ?case
    by (simp add: Cons.IH)
qed

lemma processInput_preserved:
  assumes "preserved I" and "I s"
  shows "I (snd (processInput x s))"
proof (cases "trim x = []")
  case True
  with assms show ?thesis by (simp add: processInput_def)
next
  case False
  define s1 where "s1 = snd (createNode (trim x) TPhrase None s)"
  define ph where "ph = fst (createNode (trim x) TPhrase None s)"
  define s2 where "s2 = snd (process_tokens ph (tokenize (trim x)) None [ph] s1)"
  from assms have I1: "I s1" by (simp add: s1_def preserved_createNode)
  from assms have "refs_valid s" by (rule preserved_refs_valid)
  then have "ph < length (objs s1)"
    unfolding ph_def s1_def by (rule createNode_ref_valid)
  then have ph: "ph < length (objs s2)"
    unfolding s2_def using process_tokens_length [of s1 ph] by (meson order_less_le_trans)
  from I1 assms(1) have I2: "I s2" unfolding s2_def by (rule process_tokens_preserved [rotated])
  have "I (establishParenthood ph s2)"
    unfolding establishParenthood_def
    by (rule parenthood_fold_preserved [OF assms(1) I2 ph]) simp
  with False show ?thesis
    by (simp add: processInput_def Let_def split_beta s1_def ph_def s2_def)
qed

lemma evolve_fold_preserved:
  "preserved I \<Longrightarrow> I s \<Longrightarrow> I (fold (evolve_step cs h) ns s)"
  by (induction ns arbitrary: s) (simp_all add: preserved_evolve_step)

lemma evolveField_preserved:
  assumes "preserved I" and "I s"
  shows "I (evolveField x s)"
proof -
  have 1: "I (snd (processInput x s))"
    by (rule processInput_preserved [OF assms])
  then have "I (fold (evolve_step cs h) ns (snd (processInput x s)))" for cs h ns
    by (rule evolve_fold_preserved [OF assms(1)])
  with 1 show ?thesis
    by (simp add: evolveField_def Let_def split_beta)
qed

lemma processTrainingPair_preserved:
  assumes "preserved I" and "I s"
  shows "I (processTrainingPair p r s)"
proof -
  define s2 where "s2 = snd (processInput r (snd (processInput p s)))"
  have "I (snd (processInput p s))"
    by (rule processInput_preserved [OF assms])
  then have 1: "I s2"
    unfolding s2_def by (rule processInput_preserved [OF assms(1)])
  with assms(1) have 2: "I (createEdge f t sq s2)" for f t sq
    by (rule preserved_createEdge)
  have "I (case (a, b) of (Some x, Some y) \<Rightarrow> createEdge (f x) (g y) True s2 | _ \<Rightarrow> s2)"
    for a b :: "ref option" and f g
    by (cases a; cases b) (simp_all add: 1 2)
  with 1 show ?thesis
    unfolding s2_def by (simp add: processTrainingPair_def Let_def split_beta)
qed

lemma reinforce_fold_preserved:
  "preserved I \<Longrightarrow> I s \<Longrightarrow> I (fold reinforce_node ns s)"
  by (induction ns arbitrary: s) (simp_all add: preserved_reinforce_node)

lemma respond_preserved:
  assumes "preserved I" and "I (store l)" and "respond p l = Some (r, l1)"
  shows "I (store l1)"
proof -
  from assms(3) have eq: "store l1 = evolveField p (snd (processInput p (store l)))"
    by (auto simp: respond_def Let_def)
  have "I (snd (processInput p (store l)))"
    by (rule processInput_preserved [OF assms(1,2)])
  then have "I (evolveField p (snd (processInput p (store l))))"
    by (rule evolveField_preserved [OF assms(1)])
  with eq show ?thesis by simp
qed

lemma learnFrom_preserved:
  assumes "preserved I" and "I (store l)"
  shows "I (store (learnFrom p r l))"
proof -
  have "I (processTrainingPair p r (store l))"
    by (rule processTrainingPair_preserved [OF assms])
  then have "I (evolveField p (processTrainingPair p r (store l)))"
    by (rule evolveField_preserved [OF assms(1)])
  then have "I (evolveField r (evolveField p (processTrainingPair p r (store l))))"
    by (rule evolveField_preserved [OF assms(1)])
  then have "I (reinforceNodes p r (evolveField r (evolveField p (processTrainingPair p r (store l)))))"
    unfolding reinforceNodes_def Let_def by (rule reinforce_fold_preserved [OF assms(1)])
  then have "I (tick 1 (reinforceNodes p r (evolveField r (evolveField p (processTrainingPair p r (store l))))))"
    by (rule preserved_tick [OF assms(1)])
  then show ?thesis
    by (simp add: learnFrom_def Let_def)
qed

lemma clearMemory_preserved:
  "preserved I \<Longrightarrow> I (store l) \<Longrightarrow> I (store (clearMemory l))"
  by (simp add: clearMemory_def preserved_clear)

lemma run_preserved:
  "preserved I \<Longrightarrow> I (store l) \<Longrightarrow> run ops l = Some l1 \<Longrightarrow> I (store l1)"
proof (induction ops arbitrary: l)
  case Nil
  then show ?case by simp
next
  case (Cons op ops)
  from Cons.prems(3) obtain l2 where a: "apply_operation op l = Some l2" and r: "run ops l2 = Some l1"
    by (auto split: option.splits)
  have "I (store l2)"
  proof (cases op)
    case (Respond p)
    with a obtain r where "respond p l = Some (r, l2)" by auto
    then show ?thesis by (rule respond_preserved [OF Cons.prems(1,2)])
  next
    case (LearnFrom p r)
    with a have "l2 = learnFrom p r l" by simp
    then show ?thesis by (simp add: learnFrom_preserved [OF Cons.prems(1,2)])
  next
    case ClearMemory
    with a have "l2 = clearMemory l" by simp
    then show ?thesis by (simp add: clearMemory_preserved [OF Cons.prems(1,2)])
  qed
  then show ?case by (rule Cons.IH [OF Cons.prems(1) _ r])
qed

subsection \<open>Stability weights\<close>

lemma createNode_frame [simp]:
  "edges (snd (createNode c t p s)) = edges s"
  "fieldState (snd (createNode c t p s)) = fieldState s"
  "stabilityHistory (snd (createNode c t p s)) = stabilityHistory s"
  "clock (snd (createNode c t p s)) = clock s"
  by (simp_all add: createNode_def Let_def tick_def update_obj_def split: option.split)

lemma tick_frame [simp]:
  "objs (tick k s) = objs s" "nodes (tick k s) = nodes s" "edges (tick k s) = edges s"
  "fieldState (tick k s) = fieldState s" "stabilityHistory (tick k s) = stabilityHistory s"
  "clock (tick k s) = clock s" "getAllNodes (tick k s) = getAllNodes s"
  by (simp_all add: tick_def getAllNodes_def)

lemma reinforce_node_frame [simp]:
  "nodes (reinforce_node a s) = nodes s" "edges (reinforce_node a s) = edges s"
  "fieldState (reinforce_node a s) = fieldState s"
  "stabilityHistory (reinforce_node a s) = stabilityHistory s"
  "clock (reinforce_node a s) = clock s" "ticks (reinforce_node a s) = ticks s"
  "length (objs (reinforce_node a s)) = length (objs s)"
  "getAllNodes (reinforce_node a s) = getAllNodes s"
  by (simp_all add: reinforce_node_def split: option.split)

lemma refs_valid_frame [simp]:
  "refs_valid (createEdge f t sq s) = refs_valid s"
  "refs_valid (parenthood_step np ex s) = refs_valid s"
  "refs_valid (evolve_step cs h a s) = refs_valid s"
  "refs_valid (reinforce_node a s) = refs_valid s"
  "refs_valid (tick k s) = refs_valid s"
  "refs_valid (update_obj a g s) = refs_valid s"
  by (simp_all add: refs_valid_def)

lemma set_alist_update_values:
  "snd ` set (AList.update k v al) \<subseteq> insert v (snd ` set al)"
  by (induction al) auto

lemma refs_valid_createNode: "refs_valid s \<Longrightarrow> refs_valid (snd (createNode c t p s))"
proof (cases "findNodeByContent c s")
  case None
  assume "refs_valid s"
  then have old: "b < length (objs s)" if "b \<in> snd ` set (nodes s)" for b
    using that by (auto simp: refs_valid_def list_all_iff getAllNodes_def)
  have "b < Suc (length (objs s))"
    if "b \<in> snd ` set (AList.update k (length (objs s)) (nodes s))" for b k
  proof -
    from that set_alist_update_values [of k "length (objs s)" "nodes s"]
    have "b = length (objs s) \<or> b \<in> snd ` set (nodes s)" by blast
    then show ?thesis
    proof
      assume "b = length (objs s)" then show ?thesis by simp
    next
      assume "b \<in> snd ` set (nodes s)"
      then have "b < length (objs s)" by (rule old)
      then show ?thesis by simp
    qed
  qed
  then have "refs_valid (tick 3 (s\<lparr> objs := objs s @ [n],
                      nodes := AList.update k (length (objs s)) (nodes s) \<rparr>))" for n k
    by (simp add: refs_valid_def list_all_iff getAllNodes_def tick_def)
  with None show ?thesis
    by (simp add: createNode_def Let_def split: option.split)
next
  case (Some a)
  assume "refs_valid s"
  with Some show ?thesis
    by (simp add: createNode_def)
qed

lemma refs_valid_clear: "refs_valid (clear s)"
  by (simp add: refs_valid_def clear_def getAllNodes_def)

lemma list_all_objs_same:
  "length (objs s1) = length (objs s) \<Longrightarrow> (\<And>b. P (objs s1 ! b) = P (objs s ! b)) \<Longrightarrow>
   list_all P (objs s1) = list_all P (objs s)"
  by (simp add: list_all_length)

lemma list_all_update_obj:
  assumes "list_all P (objs s)" and "\<And>n. P n \<Longrightarrow> P (f n)"
  shows "list_all P (objs (update_obj a f s))"
proof (cases "a < length (objs s)")
  case True
  with assms have "P (f (objs s ! a))" by (simp add: list_all_length)
  with assms(1) show ?thesis
    using set_update_subset_insert [of "objs s" a "f (objs s ! a)"]
    by (auto simp: update_obj_def list_all_iff)
next
  case False
  with assms(1) show ?thesis by (simp add: update_obj_def list_update_beyond)
qed

lemma weights_createNode:
  assumes "list_all weight_ok (objs s)"
  shows "list_all weight_ok (objs (snd (createNode c t None s)))"
proof (cases "findNodeByContent c s")
  case None
  with assms show ?thesis
    by (simp add: createNode_def Let_def truthy_def weight_ok_def
        calculateInitialStabilityWeight_def)
next
  case (Some a)
  have "list_all weight_ok (objs (update_obj a
          (\<lambda>n. n\<lparr> usageWeight := usageWeight n + 1, lastUsedAt := dateNow s \<rparr>) s))"
    by (rule list_all_update_obj [OF assms]) (simp add: weight_ok_def)
  with Some show ?thesis by (simp add: createNode_def)
qed

lemma weights_reinforce_node:
  assumes "list_all weight_ok (objs s)"
  shows "list_all weight_ok (objs (reinforce_node a s))"
proof (cases "getNode (node_id (objs s ! a)) s")
  case None
  with assms show ?thesis by (simp add: reinforce_node_def)
next
  case (Some b)
  have "list_all weight_ok (objs (update_obj b
          (\<lambda>n. n\<lparr> stabilityWeight := min (stabilityWeight n + 0.1) 2.0,
                   usageWeight := usageWeight n + 0.5 \<rparr>) s))"
    by (rule list_all_update_obj [OF assms]) (simp add: weight_ok_def)
  with Some show ?thesis by (simp add: reinforce_node_def)
qed

lemma weights_inv_preserved: "preserved weights_inv"
  unfolding preserved_def
proof (intro conjI allI impI)
  fix s assume "weights_inv s"
  then show "refs_valid s" by (simp add: weights_inv_def)
next
  fix s c t assume "weights_inv s"
  then show "weights_inv (snd (createNode c t None s))"
    by (simp add: weights_inv_def refs_valid_createNode weights_createNode)
next
  fix s f t sq assume "weights_inv s"
  moreover have "list_all weight_ok (objs (createEdge f t sq s)) = list_all weight_ok (objs s)"
    by (rule list_all_objs_same) (simp_all add: field_createEdge weight_ok_def)
  ultimately show "weights_inv (createEdge f t sq s)"
    by (simp add: weights_inv_def)
next
  fix s np ex assume "weights_inv s"
  moreover have "list_all weight_ok (objs (parenthood_step np ex s)) = list_all weight_ok (objs s)"
    by (rule list_all_objs_same) (simp_all add: field_parenthood_step weight_ok_def)
  ultimately show "weights_inv (parenthood_step np ex s)"
    by (simp add: weights_inv_def)
next
  fix s cs h a assume "weights_inv s"
  moreover have "list_all weight_ok (objs (evolve_step cs h a s)) = list_all weight_ok (objs s)"
    by (rule list_all_objs_same) (simp_all add: field_evolve_step weight_ok_def)
  ultimately show "weights_inv (evolve_step cs h a s)"
    by (simp add: weights_inv_def)
next
  fix s a assume "weights_inv s"
  then show "weights_inv (reinforce_node a s)"
    by (simp add: weights_inv_def weights_reinforce_node)
next
  fix s k assume "weights_inv s"
  then show "weights_inv (tick k s)"
    by (simp add: weights_inv_def)
next
  fix s assume "weights_inv s"
  then show "weights_inv (clear s)"
    by (simp add: weights_inv_def refs_valid_clear) (simp add: clear_def)
qed

lemma weights_inv_new: "weights_inv (new_store clk t)"
  by (simp add: weights_inv_def refs_valid_def new_store_def getAllNodes_def)

text \<open>
  C10. In every state that a run of \<^verbatim>\<open>respond\<close>, \<^verbatim>\<open>learnFrom\<close> and \<^verbatim>\<open>clearMemory\<close>
  reaches from a new engine, the stability weight of every stored node lies between 1 and
  2, and \<^verbatim>\<open>getUnstableNodes\<close> returns the empty list.
\<close>

theorem stabilityWeight_bounds:
  assumes "run ops (new_llm clk t) = Some l"
  shows "list_all (\<lambda>a. 1 \<le> stabilityWeight (objs (store l) ! a)
                       \<and> stabilityWeight (objs (store l) ! a) \<le> 2) (getAllNodes (store l))
         \<and> fst (getUnstableNodes (store l)) = []"
proof -
  have "weights_inv (store (new_llm clk t))"
    by (simp add: new_llm_def weights_inv_new)
  then have inv: "weights_inv (store l)"
    by (rule run_preserved [OF weights_inv_preserved _ assms])
  have w: "weight_ok (objs (store l) ! a)" if "a \<in> set (getAllNodes (store l))" for a
  proof -
    from inv that have "a < length (objs (store l))"
      by (simp add: weights_inv_def refs_valid_def list_all_iff)
    with inv show ?thesis
      by (simp add: weights_inv_def list_all_length)
  qed
  from w have 1: "list_all (\<lambda>a. 1 \<le> stabilityWeight (objs (store l) ! a)
                       \<and> stabilityWeight (objs (store l) ! a) \<le> 2) (getAllNodes (store l))"
    by (simp add: list_all_iff weight_ok_def)
  have "filter (\<lambda>a. Q a \<and> stabilityWeight (objs (store l) ! a) < 0.5) (getAllNodes (store l)) = []" for Q
  proof -
    have "\<not> stabilityWeight (objs (store l) ! a) < 0.5" if "a \<in> set (getAllNodes (store l))" for a
      using w [OF that] by (simp add: weight_ok_def)
    then show ?thesis by (simp add: filter_empty_conv)
  qed
  then have "fst (getUnstableNodes (store l)) = []"
    by (simp add: getUnstableNodes_def Let_def)
  with 1 show ?thesis by simp
qed

theorem stabilityWeight_bounds_witness:
  "run [LearnFrom ''hi'' ''yo'', ClearMemory, LearnFrom ''hi'' ''yo''] (new_llm (\<lambda>n. n) 0) =
     Some (learnFrom ''hi'' ''yo'' (clearMemory (learnFrom ''hi'' ''yo'' (new_llm (\<lambda>n. n) 0))))
   \<and> fst (getUnstableNodes (store
        (learnFrom ''hi'' ''yo'' (clearMemory (learnFrom ''hi'' ''yo'' (new_llm (\<lambda>n. n) 0)))))) = []"
proof -
  have r: "run [LearnFrom ''hi'' ''yo'', ClearMemory, LearnFrom ''hi'' ''yo''] (new_llm (\<lambda>n. n) 0) =
     Some (learnFrom ''hi'' ''yo'' (clearMemory (learnFrom ''hi'' ''yo'' (new_llm (\<lambda>n. n) 0))))"
    by simp
  from stabilityWeight_bounds [OF r] r show ?thesis by simp
qed

subsection \<open>Bounded histories\<close>

lemma length_slice_last: "length (slice_last n xs) \<le> n"
  by (simp add: slice_last_def)

lemma length_gradients_updateField:
  "length (gradients (updateField cfg cs node nfv ncv hist)) \<le> 10"
  unfolding updateField_def Let_def  by (simp add:  length_slice_last)

lemma fieldState_updateNodeFieldValue [simp]:
  "fieldState (updateNodeFieldValue i v s) = fieldState s"
  "stabilityHistory (updateNodeFieldValue i v s) = stabilityHistory s"
  by (simp_all add: updateNodeFieldValue_def split: option.split)

lemma fieldState_updateFieldState [simp]: "fieldState (updateFieldState ns s) = ns"
  by (simp add: updateFieldState_def Let_def)

lemma length_gradients_evolve_step:
  "length (gradients (fieldState (evolve_step cs h a s))) \<le> 10"
  unfolding evolve_step_def Let_def
  by (simp add: length_gradients_updateField)

lemma stabilityHistory_updateFieldState:
  "length (stabilityHistory s) \<le> 20 \<Longrightarrow>
   stabilityHistory (updateFieldState ns s)
     = (let h = stabilityHistory s @ [stability ns] in drop (length h - 20) h)
   \<and> length (stabilityHistory (updateFieldState ns s)) \<le> 20"
proof (cases "length (stabilityHistory s) = 20")
  case True
  then have "stabilityHistory s \<noteq> []" by auto
  with True show ?thesis by (simp add: updateFieldState_def Let_def drop_Suc)
next
  case False
  assume "length (stabilityHistory s) \<le> 20"
  with False show ?thesis by (simp add: updateFieldState_def Let_def)
qed

lemma stabilityHistory_evolve_step:
  "length (stabilityHistory s) \<le> 20 \<Longrightarrow> length (stabilityHistory (evolve_step cs h a s)) \<le> 20"
proof -
  assume "length (stabilityHistory s) \<le> 20"
  then have "length (stabilityHistory (updateFieldState ns s)) \<le> 20" for ns
    by (simp add: stabilityHistory_updateFieldState)
  then show ?thesis
    by (simp add: evolve_step_def Let_def)
qed

lemma histories_inv_preserved: "preserved histories_inv"
  unfolding preserved_def
proof (intro conjI allI impI)
  fix s assume "histories_inv s"
  then show "refs_valid s" by (simp add: histories_inv_def)
next
  fix s c t assume "histories_inv s"
  then show "histories_inv (snd (createNode c t None s))"
    by (simp add: histories_inv_def refs_valid_createNode)
next
  fix s f t sq assume "histories_inv s"
  then show "histories_inv (createEdge f t sq s)"
    by (simp add: histories_inv_def)
next
  fix s np ex assume "histories_inv s"
  then show "histories_inv (parenthood_step np ex s)"
    by (simp add: histories_inv_def)
next
  fix s cs h a assume inv: "histories_inv s"
  from inv show "histories_inv (evolve_step cs h a s)"
    by (simp add: histories_inv_def stabilityHistory_evolve_step length_gradients_evolve_step)
next
  fix s a assume "histories_inv s"
  then show "histories_inv (reinforce_node a s)"
    by (simp add: histories_inv_def)
next
  fix s k assume "histories_inv s"
  then show "histories_inv (tick k s)"
    by (simp add: histories_inv_def)
next
  fix s assume "histories_inv s"
  then show "histories_inv (clear s)"
    by (simp add: histories_inv_def refs_valid_clear) (simp add: clear_def dead_field_def)
qed

lemma trainingLog_respond: "respond p l = Some (r, l1) \<Longrightarrow> trainingLog l1 = trainingLog l"
  by (auto simp: respond_def Let_def)

lemma trainingLog_learnFrom:
  "length (trainingLog l) \<le> 100 \<Longrightarrow>
   trainingLog (learnFrom p r l) =
     (let log1 = trainingLog l @ [\<lparr> prompt = p, response = r,
                   timestamp = timestamp (last (trainingLog (learnFrom p r l))) \<rparr>]
      in drop (length log1 - 100) log1)
   \<and> length (trainingLog (learnFrom p r l)) \<le> 100"
proof (cases "length (trainingLog l) = 100")
  case True
  then have "trainingLog l \<noteq> []" by auto
  with True show ?thesis by (simp add: learnFrom_def Let_def drop_Suc)
next
  case False
  assume "length (trainingLog l) \<le> 100"
  with False show ?thesis by (simp add: learnFrom_def Let_def)
qed

lemma run_trainingLog:
  "length (trainingLog l) \<le> 100 \<Longrightarrow> run ops l = Some l1 \<Longrightarrow> length (trainingLog l1) \<le> 100"
proof (induction ops arbitrary: l)
  case Nil
  then show ?case by simp
next
  case (Cons op ops)
  from Cons.prems(2) obtain l2 where a: "apply_operation op l = Some l2" and r: "run ops l2 = Some l1"
    by (auto split: option.splits)
  have "length (trainingLog l2) \<le> 100"
  proof (cases op)
    case (Respond p)
    with a obtain r where "respond p l = Some (r, l2)" by auto
    then show ?thesis using Cons.prems(1) by (simp add: trainingLog_respond)
  next
    case (LearnFrom p r)
    with a have "l2 = learnFrom p r l" by simp
    then show ?thesis using Cons.prems(1) by (simp add: trainingLog_learnFrom [THEN conjunct2])
  next
    case ClearMemory
    with a have "l2 = clearMemory l" by simp
    then show ?thesis by (simp add: clearMemory_def)
  qed
  then show ?case by (rule Cons.IH [OF _ r])
qed

text \<open>
  C9. In every state that a run of \<^verbatim>\<open>respond\<close>, \<^verbatim>\<open>learnFrom\<close> and \<^verbatim>\<open>clearMemory\<close>
  reaches from a new engine, the gradients are at most 10, the stability history at most
  20 and the training log at most 100 long; and from such a state the next field update
  keeps the last 10 of the gradients with the new increment appended, the next
  replacement of the field state keeps the last 20 of the history with the new stability
  appended, and the next \<^verbatim>\<open>learnFrom\<close> keeps the last 100 of the log with the new entry
  appended: the oldest entries go first.
\<close>

theorem bounded_histories:
  assumes "run ops (new_llm clk t) = Some l"
  shows "length (gradients (fieldState (store l))) \<le> 10
       \<and> length (stabilityHistory (store l)) \<le> 20
       \<and> length (trainingLog l) \<le> 100
       \<and> (\<forall>cfg node nfv ncv hist.
            gradients (updateField cfg (fieldState (store l)) node nfv ncv hist) =
              (let g = gradients (fieldState (store l)) @
                     [field_u (updateField cfg (fieldState (store l)) node nfv ncv hist)
                      - field_u (fieldState (store l))]
               in drop (length g - 10) g))
       \<and> (\<forall>newState.
            stabilityHistory (updateFieldState newState (store l)) =
              (let h = stabilityHistory (store l) @ [stability newState]
               in drop (length h - 20) h))
       \<and> (\<forall>p r.
            trainingLog (learnFrom p r l) =
              (let log1 = trainingLog l @ [\<lparr> prompt = p, response = r,
                     timestamp = timestamp (last (trainingLog (learnFrom p r l))) \<rparr>]
               in drop (length log1 - 100) log1))"
proof -
  have "histories_inv (store (new_llm clk t))"
    by (simp add: new_llm_def histories_inv_def refs_valid_def new_store_def getAllNodes_def
        dead_field_def)
  then have inv: "histories_inv (store l)"
    by (rule run_preserved [OF histories_inv_preserved _ assms])
  have "length (trainingLog (new_llm clk t)) \<le> 100"
    by (simp add: new_llm_def)
  then have log: "length (trainingLog l) \<le> 100"
    using assms by (rule run_trainingLog)
  have g: "gradients (updateField cfg st node nfv ncv hist) =
              (let g = gradients st @ [field_u (updateField cfg st node nfv ncv hist) - field_u st]
               in drop (length g - 10) g)" for cfg st node nfv ncv hist
    by (simp add: updateField_def Let_def slice_last_drop)
  from inv have h: "length (stabilityHistory (store l)) \<le> 20"
    by (simp add: histories_inv_def)
  show ?thesis
  proof (intro conjI allI)
    from inv show "length (gradients (fieldState (store l))) \<le> 10"
      by (simp add: histories_inv_def)
    from h show "length (stabilityHistory (store l)) \<le> 20" .
    from log show "length (trainingLog l) \<le> 100" .
    show "gradients (updateField cfg (fieldState (store l)) node nfv ncv hist) =
              (let g = gradients (fieldState (store l)) @
                     [field_u (updateField cfg (fieldState (store l)) node nfv ncv hist)
                      - field_u (fieldState (store l))]
               in drop (length g - 10) g)" for cfg node nfv ncv hist
      by (rule g)
    show "stabilityHistory (updateFieldState newState (store l)) =
              (let h = stabilityHistory (store l) @ [stability newState]
               in drop (length h - 20) h)" for newState
      using stabilityHistory_updateFieldState [OF h] by (rule conjunct1)
    show "trainingLog (learnFrom p r l) =
              (let log1 = trainingLog l @ [\<lparr> prompt = p, response = r,
                     timestamp = timestamp (last (trainingLog (learnFrom p r l))) \<rparr>]
               in drop (length log1 - 100) log1)" for p r
      using trainingLog_learnFrom [OF log] by (rule conjunct1)
  qed
qed

theorem bounded_histories_witness:
  "run [LearnFrom ''hi'' ''yo''] (new_llm (\<lambda>n. n) 0) = Some (learnFrom ''hi'' ''yo'' (new_llm (\<lambda>n. n) 0))
   \<and> length (gradients (fieldState (store (learnFrom ''hi'' ''yo'' (new_llm (\<lambda>n. n) 0))))) \<le> 10
   \<and> length (stabilityHistory (store (learnFrom ''hi'' ''yo'' (new_llm (\<lambda>n. n) 0)))) \<le> 20
   \<and> length (trainingLog (learnFrom ''hi'' ''yo'' (new_llm (\<lambda>n. n) 0))) \<le> 100"
proof -
  have r: "run [LearnFrom ''hi'' ''yo''] (new_llm (\<lambda>n. n) 0) =
     Some (learnFrom ''hi'' ''yo'' (new_llm (\<lambda>n. n) 0))"
    by simp
  from bounded_histories [OF r] r show ?thesis by blast
qed

subsection \<open>Lower case, trimming and tokens\<close>

lemma of_char_lowerChar: "isUpper c \<Longrightarrow> of_char (lowerChar c) = (of_char c :: nat) + 32"
  by (cases c) (auto simp: lowerChar_def isUpper_def Let_def of_bool_def split: if_splits)

lemma isWhitespace_lowerChar [simp]: "isWhitespace (lowerChar c) = isWhitespace c"
proof (cases "isUpper c")
  case True
  then show ?thesis
    using of_char_lowerChar [OF True]
    by (auto simp: isWhitespace_def isUpper_def Let_def)
next
  case False
  then show ?thesis by (simp add: lowerChar_def)
qed

lemma dropWhile_toLowerCase:
  "dropWhile isWhitespace (toLowerCase s) = toLowerCase (dropWhile isWhitespace s)"
  by (induction s) (simp_all add: toLowerCase_def)

lemma rev_toLowerCase: "rev (toLowerCase s) = toLowerCase (rev s)"
  by (simp add: toLowerCase_def rev_map)

lemma trim_toLowerCase: "trim (toLowerCase s) = toLowerCase (trim s)"
  by (simp add: trim_def dropWhile_toLowerCase rev_toLowerCase)

lemma length_toLowerCase [simp]: "length (toLowerCase s) = length s"
  by (simp add: toLowerCase_def)

lemma length_trim_le: "length (trim s) \<le> length s"
  unfolding trim_def
  by (metis length_dropWhile_le length_rev order_trans)

lemma trim_hd: "trim s \<noteq> [] \<Longrightarrow> \<not> isWhitespace (hd (trim s))"
proof -
  assume ne: "trim s \<noteq> []"
  define y where "y = dropWhile isWhitespace s"
  define z where "z = dropWhile isWhitespace (rev y)"
  have t: "trim s = rev z" by (simp add: trim_def y_def z_def)
  from ne t have zne: "z \<noteq> []" by simp
  have "rev y = takeWhile isWhitespace (rev y) @ z"
    by (simp add: z_def)
  then have "y = rev z @ rev (takeWhile isWhitespace (rev y))"
    by (metis rev_append rev_rev_ident)
  with zne have "hd (rev z) = hd y" and "y \<noteq> []"
    by (metis hd_append2 rev_is_Nil_conv, metis Nil_is_append_conv rev_is_Nil_conv zne)
  moreover from \<open>y \<noteq> []\<close> have "\<not> isWhitespace (hd y)"
    unfolding y_def by (rule hd_dropWhile)
  ultimately show ?thesis by (simp add: t)
qed

lemma trim_last: "trim s \<noteq> [] \<Longrightarrow> \<not> isWhitespace (last (trim s))"
proof -
  assume ne: "trim s \<noteq> []"
  define z where "z = dropWhile isWhitespace (rev (dropWhile isWhitespace s))"
  have t: "trim s = rev z" by (simp add: trim_def z_def)
  from ne t have "z \<noteq> []" by simp
  then have "\<not> isWhitespace (hd z)" unfolding z_def by (rule hd_dropWhile)
  with \<open>z \<noteq> []\<close> show ?thesis by (simp add: t last_rev)
qed

lemma trim_trim [simp]: "trim (trim s) = trim s"
proof (cases "trim s = []")
  case True
  have "trim [] = []" by (simp add: trim_def)
  with True show ?thesis by simp
next
  case False
  from trim_hd [OF False] False have 1: "dropWhile isWhitespace (trim s) = trim s"
    by (cases "trim s") simp_all
  from trim_last [OF False] False have 2: "dropWhile isWhitespace (rev (trim s)) = rev (trim s)"
    by (cases "rev (trim s)") (simp_all add: hd_rev)
  show ?thesis
    by (subst (1) trim_def) (simp add: 1 2)
qed

lemma tokenize_from_nonempty:
  "list_all (\<lambda>t. t \<noteq> []) tokens \<Longrightarrow> list_all (\<lambda>t. t \<noteq> []) (tokenize_from tokens cur cs)"
  by (induction cs arbitrary: tokens cur) simp_all

lemma tokenize_from_length:
  "sum_list (map length (tokenize_from tokens cur cs))
     \<le> sum_list (map length tokens) + length cur + length cs"
proof (induction cs arbitrary: tokens cur)
  case Nil
  show ?case by simp
next
  case (Cons c cs)
  show ?case
    using Cons.IH [of "(if cur \<noteq> [] then tokens @ [cur] else tokens) @ [[c]]" "[]"]
      Cons.IH [of "(if cur \<noteq> [] then tokens @ [cur] else tokens)" "[]"]
      Cons.IH [of tokens "cur @ [c]"]
    by (auto split: if_splits)
qed

lemma tokenize_nonempty: "tok \<in> set (tokenize t) \<Longrightarrow> tok \<noteq> []"
  using tokenize_from_nonempty [of "[]" "[]" t] by (simp add: tokenize_def list_all_iff)

lemma sum_list_two:
  fixes f :: "'a \<Rightarrow> nat"
  assumes "x \<in> set xs" and "2 \<le> length xs" and "\<And>y. y \<in> set xs \<Longrightarrow> 0 < f y"
  shows "f x < sum_list (map f xs)"
proof -
  from assms(1) obtain ys zs where xs: "xs = ys @ x # zs" by (meson split_list)
  with assms(2) have "ys \<noteq> [] \<or> zs \<noteq> []" by auto
  then show ?thesis
  proof
    assume "ys \<noteq> []"
    then obtain y ys' where ys: "ys = y # ys'" by (cases ys) auto
    then have "y \<in> set xs" by (simp add: xs)
    then have "0 < f y" by (rule assms(3))
    then show ?thesis by (simp add: xs ys)
  next
    assume "zs \<noteq> []"
    then obtain z zs' where zs: "zs = z # zs'" by (cases zs) auto
    then have "z \<in> set xs" by (simp add: xs)
    then have "0 < f z" by (rule assms(3))
    then show ?thesis by (simp add: xs zs)
  qed
qed

lemma token_shorter:
  assumes "tok \<in> set (tokenize t)" and "2 \<le> length (tokenize t)"
  shows "length tok < length t"
proof -
  have "length tok < sum_list (map length (tokenize t))"
    by (rule sum_list_two [OF assms]) (simp add: tokenize_nonempty)
  also have "\<dots> \<le> length t"
    using tokenize_from_length [of "[]" "[]" t] by (simp add: tokenize_def)
  finally show ?thesis .
qed

text \<open>A token of a trimmed text with two tokens or more has another normalised form than the text.\<close>

lemma token_normalized_differs:
  assumes "tok \<in> set (tokenize (trim x))" and "2 \<le> length (tokenize (trim x))"
  shows "trim (toLowerCase tok) \<noteq> trim (toLowerCase (trim x))"
proof -
  have "length (trim (toLowerCase tok)) \<le> length tok"
    using length_trim_le [of "toLowerCase tok"] by simp
  also have "\<dots> < length (trim x)" by (rule token_shorter [OF assms])
  also have "\<dots> = length (trim (toLowerCase (trim x)))"
    by (simp add: trim_toLowerCase)
  finally show ?thesis by auto
qed

subsection \<open>The first text of a new engine\<close>

lemma generateId_not_phrase: "ty \<noteq> TPhrase \<Longrightarrow> take 7 (generateId c ty now) \<noteq> ''phrase_''"
  by (cases ty) (simp_all add: generateId_def type_name_def)

lemma fresh_inv_fields:
  assumes "fresh_inv pid t s"
    and "nodes s1 = nodes s" and "edges s1 = edges s" and "length (objs s1) = length (objs s)"
    and "\<And>b. content (objs s1 ! b) = content (objs s ! b)"
    and "\<And>b. node_type (objs s1 ! b) = node_type (objs s ! b)"
    and "\<And>b. parentId (objs s1 ! b) = parentId (objs s ! b)"
    and "\<And>b. stabilityWeight (objs s1 ! b) = stabilityWeight (objs s ! b)"
    and "\<And>b. node_id (objs s1 ! b) = node_id (objs s ! b)"
  shows "fresh_inv pid t s1"
  using assms(1) unfolding fresh_inv_def assms(2-) by (cases "objs s"; cases "objs s1") (use assms(4) in auto)

lemma fresh_inv_update_obj:
  assumes "fresh_inv pid t s"
    and "\<And>n. content (f n) = content n" "\<And>n. node_type (f n) = node_type n"
    and "\<And>n. parentId (f n) = parentId n" "\<And>n. stabilityWeight (f n) = stabilityWeight n"
    and "\<And>n. node_id (f n) = node_id n"
  shows "fresh_inv pid t (update_obj a f s)"
  by (rule fresh_inv_fields [OF assms(1)]) (simp_all add: field_update_obj assms(2-))

lemma fresh_inv_tick: "fresh_inv pid t s \<Longrightarrow> fresh_inv pid t (tick k s)"
  by (rule fresh_inv_fields) (simp_all add: tick_def)

lemma list_all_update_first:
  "list_all Q xs \<Longrightarrow> (\<And>x. Q x \<Longrightarrow> Q (g x)) \<Longrightarrow> list_all Q (update_first P g xs)"
  by (induction xs) auto

lemma fresh_inv_edges:
  assumes "fresh_inv pid t s" and "list_all (\<lambda>e. isSequential e \<longrightarrow> fromId e \<noteq> pid) es"
  shows "fresh_inv pid t (s\<lparr> edges := es \<rparr>)"
  using assms by (simp add: fresh_inv_def)

lemma fresh_inv_createEdge:
  assumes inv: "fresh_inv pid t s" and sq: "sq \<Longrightarrow> f \<noteq> pid"
  shows "fresh_inv pid t (createEdge f t' sq s)"
proof -
  from inv have es: "list_all (\<lambda>e. isSequential e \<longrightarrow> fromId e \<noteq> pid) (edges s)"
    by (simp add: fresh_inv_def)
  have 1: "fresh_inv pid t (s\<lparr> edges := update_first P g (edges s) \<rparr>)"
    if "\<And>e. isSequential (g e) = isSequential e" "\<And>e. fromId (g e) = fromId e" for P g
    by (rule fresh_inv_edges [OF inv], rule list_all_update_first [OF es]) (simp add: that)
  have 2: "fresh_inv pid t (s\<lparr> edges := edges s @ [e] \<rparr>)" if "isSequential e = sq" "fromId e = f" for e
    by (rule fresh_inv_edges [OF inv]) (use es sq that in auto)
  have 3: "fresh_inv pid t (update_obj a (\<lambda>n. n\<lparr> linkStrengths := h n \<rparr>) s')"
    if "fresh_inv pid t s'" for a h s'
    by (rule fresh_inv_update_obj [OF that]) simp_all
  show ?thesis
    unfolding createEdge_def Let_def
    by (auto split: option.split intro!: 1 2 3 inv)
qed


lemma find_in_set: "find P xs = Some a \<Longrightarrow> a \<in> set xs \<and> P a"
  by (induction xs) (auto split: if_splits)

lemma list_all_alist_update:
  "list_all P al \<Longrightarrow> P (k, v) \<Longrightarrow> list_all P (AList.update k v al)"
  by (induction al) auto

lemma fresh_inv_valid:
  assumes "fresh_inv pid t s" and "a \<in> set (getAllNodes s)"
  shows "a < length (objs s)"
proof -
  from assms(1) obtain rest where n: "nodes s = (pid, 0) # rest"
    by (cases "nodes s") (auto simp: fresh_inv_def)
  with assms(2) have "a = 0 \<or> a \<in> snd ` set rest" by (auto simp: getAllNodes_def)
  with assms(1) n show ?thesis
    by (auto simp: fresh_inv_def list_all_iff)
qed

lemma fresh_inv_createNode:
  assumes inv: "fresh_inv pid t s" and ty: "ty \<noteq> TPhrase"
  shows "fresh_inv pid t (snd (createNode tok ty None s))
       \<and> fst (createNode tok ty None s) < length (objs (snd (createNode tok ty None s)))
       \<and> (fst (createNode tok ty None s) = 0 \<longrightarrow>
            trim (toLowerCase tok) = trim (toLowerCase t))"
proof (cases "findNodeByContent tok s")
  case (Some a)
  from find_in_set [OF Some [unfolded findNodeByContent_alt]]
  have a: "a \<in> set (getAllNodes s)" and na: "normalizedContent s a = trim (toLowerCase tok)"
    by simp_all
  from fresh_inv_valid [OF inv a] have lt: "a < length (objs s)" .
  have "fresh_inv pid t (tick 1 (update_obj a
          (\<lambda>n. n\<lparr> usageWeight := usageWeight n + 1, lastUsedAt := dateNow s \<rparr>) s))"
    by (rule fresh_inv_tick, rule fresh_inv_update_obj [OF inv]) simp_all
  moreover from inv na have "a = 0 \<longrightarrow> trim (toLowerCase tok) = trim (toLowerCase t)"
    by (auto simp: fresh_inv_def normalizedContent_def)
  ultimately show ?thesis
    using Some lt by (simp add: createNode_def)
next
  case None
  define node where "node = \<lparr> node_id = generateId tok ty (clock s (ticks s)),
                 content = tok, node_type = ty,
                 lengthWeight = calculateLengthWeight tok,
                 charIndexWeight = calculateCharIndexWeight tok,
                 stabilityWeight = calculateInitialStabilityWeight,
                 usageWeight = calculateInitialUsageWeight,
                 curvatureSignature = calculateCurvatureSignature tok,
                 fieldValue = field_u (fieldState s),
                 parentId = None, childIds = [], linkStrengths = [],
                 createdAt = clock s (ticks s + 1), lastUsedAt = clock s (ticks s + 2) \<rparr>"
  define s1 where "s1 = s\<lparr> objs := objs s @ [node],
                      nodes := AList.update (node_id node) (length (objs s)) (nodes s) \<rparr>"
  have cn: "createNode tok ty None s = (length (objs s), tick 3 s1)"
    unfolding createNode_def None node_def s1_def
    by (simp add: Let_def truthy_def)
  from inv obtain rest where n: "nodes s = (pid, 0) # rest"
    by (cases "nodes s") (auto simp: fresh_inv_def)
  from inv have pre: "take 7 pid = ''phrase_''" by (simp add: fresh_inv_def)
  have idne: "node_id node \<noteq> pid"
    using generateId_not_phrase [OF ty, of tok "clock s (ticks s)"] pre by (auto simp: node_def)
  from inv have ne: "objs s \<noteq> []" by (simp add: fresh_inv_def)
  then have len: "0 < length (objs s)" by simp
  have n1: "nodes s1 = (pid, 0) # AList.update (node_id node) (length (objs s)) rest"
    using idne by (simp add: s1_def n)
  let ?P = "\<lambda>s (k, a). a \<noteq> 0 \<and> a < length (objs s) \<and> node_type (objs s ! a) \<noteq> TPhrase \<and> k \<noteq> pid"
  from inv n have old: "list_all (?P s) rest" by (simp add: fresh_inv_def)
  have "list_all (?P s1) rest"
    using old by (auto simp: list_all_iff s1_def nth_append)
  moreover have "?P s1 (node_id node, length (objs s))"
    using len idne ty by (simp add: s1_def node_def)
  ultimately have new: "list_all (?P s1) (AList.update (node_id node) (length (objs s)) rest)"
    by (rule list_all_alist_update)
  from inv have ids: "list_all (\<lambda>a. node_id (objs s ! a) \<noteq> pid) [1..<length (objs s)]"
    by (simp add: fresh_inv_def)
  have ids1: "list_all (\<lambda>a. node_id (objs s1 ! a) \<noteq> pid) [1..<length (objs s1)]"
    using ids idne len by (auto simp: list_all_iff s1_def nth_append less_Suc_eq)
  have "fresh_inv pid t s1"
    unfolding fresh_inv_def n1
    using inv new ids1 len by (simp add: fresh_inv_def) (simp add: s1_def nth_append)
  then have "fresh_inv pid t (tick 3 s1)" by (rule fresh_inv_tick)
  with cn len show ?thesis by (simp add: s1_def tick_def)
qed

lemma fresh_inv_other_id:
  "fresh_inv pid t s \<Longrightarrow> p \<noteq> 0 \<Longrightarrow> p < length (objs s) \<Longrightarrow> node_id (objs s ! p) \<noteq> pid"
  by (auto simp: fresh_inv_def list_all_iff)

lemma fresh_inv_token_state:
  assumes inv: "fresh_inv pid t s"
    and prev: "\<And>p. prev = Some p \<Longrightarrow> p \<noteq> 0 \<and> p < length (objs s)"
  shows "fresh_inv pid t (token_state 0 tok prev s)
       \<and> token_node tok s < length (objs (token_state 0 tok prev s))
       \<and> (token_node tok s = 0 \<longrightarrow> trim (toLowerCase tok) = trim (toLowerCase t))"
proof -
  let ?ty = "if isWord tok then TWord else TPunctuation"
  define s1 where "s1 = snd (createNode tok ?ty None s)"
  define w where "w = token_node tok s"
  define s2 where "s2 = createEdge (node_id (objs s1 ! 0)) (node_id (objs s1 ! w)) False s1"
  have ty: "?ty \<noteq> TPhrase" by simp
  from fresh_inv_createNode [OF inv ty, of tok]
  have inv1: "fresh_inv pid t s1" and w: "w < length (objs s1)"
    and w0: "w = 0 \<longrightarrow> trim (toLowerCase tok) = trim (toLowerCase t)"
    by (simp_all add: s1_def w_def token_node_def)
  have inv2: "fresh_inv pid t s2"
    unfolding s2_def by (rule fresh_inv_createEdge [OF inv1]) simp
  have len2: "length (objs s2) = length (objs s1)" by (simp add: s2_def)
  have len1: "length (objs s) \<le> length (objs s1)"
    unfolding s1_def by (rule length_objs_createNode)
  show ?thesis
  proof (cases prev)
    case None
    then have "token_state 0 tok prev s = s2"
      by (simp add: token_state_def Let_def s1_def s2_def w_def)
    with inv2 w w0 len2 show ?thesis by (simp add: w_def)
  next
    case (Some p)
    from prev [OF Some] len1 len2 have p: "p \<noteq> 0" "p < length (objs s2)" by simp_all
    have "fresh_inv pid t (createEdge (node_id (objs s2 ! p)) (node_id (objs s2 ! w)) True s2)"
      by (rule fresh_inv_createEdge [OF inv2]) (rule fresh_inv_other_id [OF inv2 p])
    moreover from Some have "token_state 0 tok prev s =
        createEdge (node_id (objs s2 ! p)) (node_id (objs s2 ! w)) True s2"
      by (simp add: token_state_def Let_def s1_def s2_def w_def)
    ultimately show ?thesis using w w0 len2 by (simp add: w_def)
  qed
qed

lemma fresh_inv_process_tokens:
  assumes "fresh_inv pid t s"
    and "\<And>tok. tok \<in> set toks \<Longrightarrow> trim (toLowerCase tok) = trim (toLowerCase t)
           \<Longrightarrow> prev = None \<and> toks = [tok]"
    and "\<And>p. prev = Some p \<Longrightarrow> p < length (objs s) \<and> (p = 0 \<longrightarrow> toks = [])"
  shows "fresh_inv pid t (snd (process_tokens 0 toks prev created s))"
  using assms
proof (induction toks arbitrary: prev created s)
  case Nil
  then show ?case by simp
next
  case (Cons tok toks)
  have prev: "p \<noteq> 0 \<and> p < length (objs s)" if "prev = Some p" for p
    using Cons.prems(3) [OF that] by auto
  from fresh_inv_token_state [OF Cons.prems(1) prev, where tok = tok]
  have inv: "fresh_inv pid t (token_state 0 tok prev s)"
    and w: "token_node tok s < length (objs (token_state 0 tok prev s))"
    and w0: "token_node tok s = 0 \<longrightarrow> trim (toLowerCase tok) = trim (toLowerCase t)"
    by simp_all
  have a: "Some (token_node tok s) = None \<and> toks = [tok']"
    if "tok' \<in> set toks" "trim (toLowerCase tok') = trim (toLowerCase t)" for tok'
    using Cons.prems(2) [of tok'] that by auto
  have b: "p < length (objs (token_state 0 tok prev s)) \<and> (p = 0 \<longrightarrow> toks = [])"
    if "Some (token_node tok s) = Some p" for p
    using that w w0 Cons.prems(2) [of tok] by auto
  show ?case
    unfolding process_tokens_Cons
    by (rule Cons.IH [OF inv a b])
qed

lemma fresh_inv_phrases: "fresh_inv pid t s \<Longrightarrow> getPhraseNodes s = [0]"
proof -
  assume inv: "fresh_inv pid t s"
  then obtain rest where n: "nodes s = (pid, 0) # rest"
    by (cases "nodes s") (auto simp: fresh_inv_def)
  from inv n have "filter (\<lambda>a. node_type (objs s ! a) = TPhrase) (map snd rest) = []"
    by (auto simp: fresh_inv_def list_all_iff filter_empty_conv)
  with inv n show ?thesis
    by (simp add: getPhraseNodes_def getAllNodes_def fresh_inv_def)
qed

lemma fresh_inv_establishParenthood: "fresh_inv pid t s \<Longrightarrow> establishParenthood 0 s = s"
  by (simp add: establishParenthood_def fresh_inv_phrases parenthood_step_def)

lemma tokens_condition:
  assumes "tok \<in> set (tokenize (trim x))"
    and "trim (toLowerCase tok) = trim (toLowerCase (trim x))"
  shows "tokenize (trim x) = [tok]"
proof -
  from assms token_normalized_differs [of tok x] have "\<not> 2 \<le> length (tokenize (trim x))"
    by auto
  with assms(1) show ?thesis
    by (cases "tokenize (trim x)"; cases "tl (tokenize (trim x))") auto
qed

lemma fresh_inv_tokens_parenthood:
  assumes "fresh_inv pid (trim x) s"
  shows "fresh_inv pid (trim x)
     (establishParenthood 0 (snd (process_tokens 0 (tokenize (trim x)) None created s)))"
proof -
  have "fresh_inv pid (trim x) (snd (process_tokens 0 (tokenize (trim x)) None created s))"
    by (rule fresh_inv_process_tokens [OF assms]) (simp_all add: tokens_condition)
  then show ?thesis by (simp add: fresh_inv_establishParenthood)
qed

lemma fresh_inv_find: "fresh_inv pid t s \<Longrightarrow> findNodeByContent t s = Some 0"
proof -
  assume inv: "fresh_inv pid t s"
  then obtain rest where n: "nodes s = (pid, 0) # rest"
    by (cases "nodes s") (auto simp: fresh_inv_def)
  with inv show ?thesis
    by (simp add: findNodeByContent_def getAllNodes_def fresh_inv_def)
qed

lemma fresh_inv_processInput:
  assumes inv: "fresh_inv pid (trim x) s" and ne: "trim x \<noteq> []"
  shows "fresh_inv pid (trim x) (snd (processInput x s))"
proof -
  let ?s1 = "tick 1 (update_obj 0
      (\<lambda>n. n\<lparr> usageWeight := usageWeight n + 1, lastUsedAt := dateNow s \<rparr>) s)"
  have cn: "createNode (trim x) TPhrase None s = (0, ?s1)"
    by (simp add: createNode_def fresh_inv_find [OF inv])
  have "fresh_inv pid (trim x) ?s1"
    by (rule fresh_inv_tick, rule fresh_inv_update_obj [OF inv]) simp_all
  then have "fresh_inv pid (trim x)
     (establishParenthood 0 (snd (process_tokens 0 (tokenize (trim x)) None [0] ?s1)))"
    by (rule fresh_inv_tokens_parenthood)
  with ne show ?thesis
    by (simp add: processInput_def Let_def cn split_beta)
qed

lemma fresh_inv_processInput_new:
  assumes ne: "trim x \<noteq> []"
  shows "fresh_inv (generateId (trim x) TPhrase (clk k)) (trim x)
           (snd (processInput x (new_store clk k)))"
proof -
  define pid where "pid = generateId (trim x) TPhrase (clk k)"
  define node where "node = \<lparr> node_id = pid,
                 content = trim x, node_type = TPhrase,
                 lengthWeight = calculateLengthWeight (trim x),
                 charIndexWeight = calculateCharIndexWeight (trim x),
                 stabilityWeight = calculateInitialStabilityWeight,
                 usageWeight = calculateInitialUsageWeight,
                 curvatureSignature = calculateCurvatureSignature (trim x),
                 fieldValue = field_u dead_field,
                 parentId = None, childIds = [], linkStrengths = [],
                 createdAt = clk (k + 1), lastUsedAt = clk (k + 2) \<rparr>"
  define s1 where "s1 = \<lparr> objs = [node], nodes = [(pid, 0)], edges = [], fieldState = dead_field,
     stabilityHistory = [], clock = clk, ticks = k + 3 \<rparr>"
  have cn: "createNode (trim x) TPhrase None (new_store clk k) = (0, s1)"
    by (simp add: createNode_def findNodeByContent_def getAllNodes_def new_store_def Let_def
        truthy_def tick_def s1_def node_def pid_def)
  have "take 7 pid = ''phrase_''"
    by (simp add: pid_def generateId_def type_name_def)
  then have "fresh_inv pid (trim x) s1"
    by (simp add: fresh_inv_def s1_def node_def calculateInitialStabilityWeight_def)
  then have "fresh_inv pid (trim x)
     (establishParenthood 0 (snd (process_tokens 0 (tokenize (trim x)) None [0] s1)))"
    by (rule fresh_inv_tokens_parenthood)
  with ne show ?thesis
    by (simp add: processInput_def Let_def cn split_beta pid_def)
qed

lemma fresh_inv_evolve_step: "fresh_inv pid t s \<Longrightarrow> fresh_inv pid t (evolve_step cs h a s)"
  by (rule fresh_inv_fields) (simp_all add: field_evolve_step)

lemma fresh_inv_evolve_fold:
  "fresh_inv pid t s \<Longrightarrow> fresh_inv pid t (fold (evolve_step cs h) ns s)"
  by (induction ns arbitrary: s) (simp_all add: fresh_inv_evolve_step)

lemma fresh_inv_evolveField:
  assumes "fresh_inv pid (trim x) s" and "trim x \<noteq> []"
  shows "fresh_inv pid (trim x) (evolveField x s)"
proof -
  have 1: "fresh_inv pid (trim x) (snd (processInput x s))"
    by (rule fresh_inv_processInput [OF assms])
  then have "fresh_inv pid (trim x) (fold (evolve_step cs h) ns (snd (processInput x s)))" for cs h ns
    by (rule fresh_inv_evolve_fold)
  with 1 show ?thesis
    by (simp add: evolveField_def Let_def split_beta)
qed

lemma fallback_walk_None: "fallback_walk s None best = Some best"
  by (subst fallback_walk.simps) simp

lemma fallback_walk_Some:
  "fallback_walk s (Some a) best = fallback_walk s
     (if truthy (parentId (objs s ! a)) then getNode (the (parentId (objs s ! a))) s else None)
     (if stabilityWeight (objs s ! a) > snd best then (Some a, stabilityWeight (objs s ! a))
      else best)"
  by (subst fallback_walk.simps) simp

lemma generateResponse_fresh:
  assumes inv: "fresh_inv pid t s" and adm: "spec_admits (trim (toLowerCase y)) (toLowerCase t)"
  shows "generateResponse cfg y s = Some t"
proof -
  from inv have nodes: "getAllNodes s \<noteq> []" by (simp add: fresh_inv_def getAllNodes_def)
  from inv have c0: "content (objs s ! 0) = t" and id0: "node_id (objs s ! 0) = pid"
    and p0: "parentId (objs s ! 0) = None" and w0: "stabilityWeight (objs s ! 0) = 1"
    by (simp_all add: fresh_inv_def)
  have "scored_matches y s = [(0, spec_score (trim (toLowerCase y)) (toLowerCase t))]"
    by (simp add: scored_matches_spec fresh_inv_phrases [OF inv] c0 adm)
  then have matches: "findMatchingPhrases y s = [0]"
    by (simp add: findMatchingPhrases_def sort_cmp_def)
  from inv have "getSequentialEdges pid s = []"
    by (auto simp: getSequentialEdges_def fresh_inv_def list_all_iff filter_empty_conv)
  then have link: "getStrongestLink pid s = None"
    by (simp add: getStrongestLink_def)
  then have chain: "buildChain pid 3 s = []"
    by (simp add: buildChain_def eval_nat_numeral)
  from link chain have "candidates_of s 0 = []"
    by (simp add: candidates_of_def id0)
  then have cands: "buildCandidates s [0] = []"
    by (simp add: buildCandidates_def)
  have "fallback_loop s [0] (None, 0) = Some (Some 0, 1)"
    by (simp add: fallback_walk_Some fallback_walk_None p0 w0 truthy_def)
  then have "getFallbackResponse s [0] = Some (Some \<lparr> nodeIds = [pid], cand_content = t, score = 1,
      cand_curvature = curvatureSignature (objs s ! 0), cand_isStable = True \<rparr>)"
    by (simp add: getFallbackResponse_def c0 id0)
  with nodes matches cands show ?thesis
    by (simp add: generateResponse_def)
qed

lemma spec_admits_same: "spec_admits (trim (toLowerCase x)) (toLowerCase (trim x))"
  by (simp add: spec_admits_def trim_toLowerCase)

lemma str_includes_Nil [simp]: "str_includes hay []"
  by (induction hay) simp_all

lemma toLowerCase_Nil [simp]: "toLowerCase [] = []"
  by (simp add: toLowerCase_def)


text \<open>The first answer of a new engine, and the engine after it.\<close>

lemma respond_new:
  assumes ne: "trim x \<noteq> []" and st: "store l = new_store clk k"
  shows "\<exists>l1. respond x l = Some (trim x, l1)
           \<and> fresh_inv (generateId (trim x) TPhrase (clk k)) (trim x) (store l1)"
proof -
  define pid where "pid = generateId (trim x) TPhrase (clk k)"
  define s2 where "s2 = evolveField x (snd (processInput x (store l)))"
  have "fresh_inv pid (trim x) (snd (processInput x (store l)))"
    unfolding pid_def st by (rule fresh_inv_processInput_new [OF ne])
  then have inv: "fresh_inv pid (trim x) s2"
    unfolding s2_def by (rule fresh_inv_evolveField [OF _ ne])
  then have "generateResponse default_config x s2 = Some (trim x)"
    by (rule generateResponse_fresh) (rule spec_admits_same)
  then have "respond x l = Some (trim x, l\<lparr> store := s2 \<rparr>)"
    by (simp add: respond_def Let_def s2_def)
  with inv show ?thesis by (auto simp: pid_def)
qed

lemma processInput_blank: "trim x = [] \<Longrightarrow> processInput x s = ([], s)"
  by (simp add: processInput_def)

lemma evolveField_blank: "trim x = [] \<Longrightarrow> evolveField x s = s"
  by (simp add: evolveField_def processInput_blank)

lemma respond_blank:
  "trim x = [] \<Longrightarrow>
   respond x l = map_option (\<lambda>r. (r, l)) (generateResponse default_config x (store l))"
  by (simp add: respond_def processInput_blank evolveField_blank)

lemma clear_new: "clear s = new_store (clock s) (ticks s)"
  by (simp add: clear_def new_store_def)

text \<open>
  C1, as the claim states it, fails: on a cleared engine the answer to \<open>'' a''\<close> is
  \<open>''a''\<close>, the content of the phrase node that \<^verbatim>\<open>respond\<close> has just stored.
\<close>

theorem respond_dead_state_trims:
  "map_option fst (respond '' a'' (clearMemory (new_llm (\<lambda>n. n) 0))) = Some ''a''
   \<and> map_option fst (respond '' a'' (clearMemory (new_llm (\<lambda>n. n) 0))) \<noteq> Some '' a''"
proof -
  have t: "trim '' a'' = ''a''" by (simp add: trim_def isWhitespace_def)
  then have "trim '' a'' \<noteq> []" by simp
  from respond_new [OF this, of "clearMemory (new_llm (\<lambda>n. n) 0)" "\<lambda>n. n" 0]
  show ?thesis
    by (auto simp: t new_llm_def clearMemory_def clear_new new_store_def)
qed

text \<open>
  C1, amended. On a new engine and on a cleared one, \<^verbatim>\<open>respond(x)\<close> returns \<open>x\<close>
  without its leading and trailing white space, which is \<open>x\<close> itself when it has none;
  for an \<open>x\<close> of white space only it returns \<open>x\<close>.
\<close>

theorem respond_dead_state:
  "map_option fst (respond x (new_llm clk k)) = Some (if trim x = [] then x else trim x)
   \<and> map_option fst (respond x (clearMemory l)) = Some (if trim x = [] then x else trim x)"
proof (cases "trim x = []")
  case True
  have "generateResponse default_config x (new_store c t) = Some x" for c t
    by (simp add: generateResponse_def getAllNodes_def new_store_def)
  with True show ?thesis
    by (simp add: respond_blank new_llm_def clearMemory_def clear_new option.map_comp comp_def)
next
  case False
  from respond_new [OF False, of "new_llm clk k" clk k]
    respond_new [OF False, of "clearMemory l" "clock (store l)" "ticks (store l)"]
  show ?thesis
    using False by (auto simp: new_llm_def clearMemory_def clear_new)
qed

theorem respond_dead_state_witness:
  "map_option fst (respond ''hello world'' (new_llm (\<lambda>n. n) 0)) = Some ''hello world''
   \<and> map_option fst (respond ''  '' (clearMemory (new_llm (\<lambda>n. n) 0))) = Some ''  ''"
  using respond_dead_state [of "''hello world''" "\<lambda>n. n" 0]
    respond_dead_state [of "''  ''" "\<lambda>n. n" 0 "new_llm (\<lambda>n. n) 0"]
  by (simp add: trim_def isWhitespace_def)

subsection \<open>Parent references\<close>

lemma graph_inv_same:
  assumes "nodes s1 = nodes s" and "length (objs s1) = length (objs s)"
    and "\<And>b. node_id (objs s1 ! b) = node_id (objs s ! b)"
    and "\<And>b. content (objs s1 ! b) = content (objs s ! b)"
    and "\<And>b. node_type (objs s1 ! b) = node_type (objs s ! b)"
    and "\<And>b. parentId (objs s1 ! b) = parentId (objs s ! b)"
  shows "graph_inv s1 = graph_inv s"
proof -
  have "list_all id_typed (objs s1) = list_all id_typed (objs s)"
    by (simp add: list_all_length id_typed_def assms)
  moreover have "getNode p s1 = getNode p s" for p
    by (simp add: getNode_def assms)
  ultimately show ?thesis
    by (simp add: graph_inv_def refs_valid_def parent_resolves_def parent_related_def
        no_displaced_def getAllNodes_def assms cong: option.case_cong)
qed

lemma field_reinforce_node:
  assumes "\<And>n g. F (stabilityWeight_update g n) = F n"
    and "\<And>n g. F (usageWeight_update g n) = F n"
  shows "F (objs (reinforce_node a s) ! b) = F (objs s ! b)"
  by (simp add: reinforce_node_def field_update_obj assms split: option.split)

lemma graph_inv_createEdge: "graph_inv (createEdge f t sq s) = graph_inv s"
  by (rule graph_inv_same) (simp_all add: field_createEdge)

lemma graph_inv_evolve_step: "graph_inv (evolve_step cs h a s) = graph_inv s"
  by (rule graph_inv_same) (simp_all add: field_evolve_step)

lemma graph_inv_reinforce_node: "graph_inv (reinforce_node a s) = graph_inv s"
  by (rule graph_inv_same) (simp_all add: field_reinforce_node)

lemma graph_inv_tick: "graph_inv (tick k s) = graph_inv s"
  by (rule graph_inv_same) (simp_all add: tick_def)

lemma graph_inv_update_obj:
  assumes "\<And>n. node_id (f n) = node_id n" "\<And>n. content (f n) = content n"
    "\<And>n. node_type (f n) = node_type n" "\<And>n. parentId (f n) = parentId n"
  shows "graph_inv (update_obj a f s) = graph_inv s"
  by (rule graph_inv_same) (simp_all add: field_update_obj assms)

lemma graph_inv_clear: "graph_inv (clear s)"
  by (simp add: graph_inv_def refs_valid_def parent_resolves_def parent_related_def
      getAllNodes_def clear_def)

lemma type_of_prefix:
  "prefix (type_name t1 @ ''_'') k \<Longrightarrow> prefix (type_name t2 @ ''_'') k \<Longrightarrow> t1 = t2"
proof -
  assume "prefix (type_name t1 @ ''_'') k" and "prefix (type_name t2 @ ''_'') k"
  then have "prefix (type_name t1 @ ''_'') (type_name t2 @ ''_'')
           \<or> prefix (type_name t2 @ ''_'') (type_name t1 @ ''_'')"
    by (rule prefix_same_cases)
  then show ?thesis
    by (cases t1; cases t2) (simp_all add: type_name_def)
qed

lemma length_alist_update:
  "length (AList.update k v al) = (if k \<in> fst ` set al then length al else Suc (length al))"
  by (induction al) auto

lemma getNode_in_nodes: "getNode p s = Some b \<Longrightarrow> (p, b) \<in> set (nodes s)"
  by (simp add: getNode_def map_of_SomeD)

lemma getNode_valid: "refs_valid s \<Longrightarrow> getNode p s = Some b \<Longrightarrow> b < length (objs s)"
  by (drule getNode_in_nodes) (force simp: refs_valid_def list_all_iff getAllNodes_def)

lemma graph_inv_createNode_new:
  assumes inv: "graph_inv s"
  defines "a \<equiv> length (objs s)"
  assumes node: "node_id node = generateId c t now" "node_type node = t" "parentId node = None"
  defines "s1 \<equiv> s\<lparr> objs := objs s @ [node], nodes := AList.update (node_id node) a (nodes s) \<rparr>"
  shows "graph_inv s1"
proof -
  define k where "k = node_id node"
  from inv have rv: "refs_valid s" and dk: "distinct (map fst (nodes s))"
    and ki: "list_all (\<lambda>(k, a). node_id (objs s ! a) = k) (nodes s)"
    and le: "length (nodes s) \<le> length (objs s)"
    and it: "list_all id_typed (objs s)"
    and pr: "parent_resolves s"
    and pl: "no_displaced s \<longrightarrow> parent_related s"
    by (simp_all add: graph_inv_def)
  have old_valid: "b < a" if "b \<in> set (getAllNodes s)" for b
    using rv that by (simp add: refs_valid_def list_all_iff a_def)
  have old_obj: "objs s1 ! b = objs s ! b" if "b < a" for b
    using that by (simp add: s1_def a_def nth_append)
  have new_obj: "objs s1 ! a = node"
    by (simp add: s1_def a_def)
  have all1: "b = a \<or> b \<in> set (getAllNodes s)" if "b \<in> set (getAllNodes s1)" for b
    using that set_alist_update_values [of k a "nodes s"]
    by (auto simp: getAllNodes_def s1_def k_def)
  have get1: "getNode p s1 = (if p = k then Some a else getNode p s)" for p
    by (simp add: getNode_def s1_def k_def update_conv')
  have idt: "prefix (type_name t @ ''_'') k"
    by (simp add: k_def node generateId_def)
  have 1: "refs_valid s1"
    using all1 old_valid by (auto simp: refs_valid_def list_all_iff s1_def a_def less_Suc_eq)
  have 2: "distinct (map fst (nodes s1))"
    using dk by (simp add: s1_def distinct_update)
  have "node_id (objs s1 ! b) = k'" if "(k', b) \<in> set (nodes s)" for k' b
  proof -
    from that have "b \<in> set (getAllNodes s)" by (force simp: getAllNodes_def)
    then have "objs s1 ! b = objs s ! b" by (simp add: old_obj old_valid)
    moreover from ki that have "node_id (objs s ! b) = k'" by (auto simp: list_all_iff)
    ultimately show ?thesis by simp
  qed
  then have old_keys: "list_all (\<lambda>(k, a). node_id (objs s1 ! a) = k) (nodes s)"
    by (auto simp: list_all_iff)
  have n1: "nodes s1 = AList.update k a (nodes s)"
    by (simp add: s1_def k_def)
  have 3: "list_all (\<lambda>(k, a). node_id (objs s1 ! a) = k) (nodes s1)"
    unfolding n1 by (rule list_all_alist_update [OF old_keys]) (simp add: new_obj k_def)
  have 4: "length (nodes s1) \<le> length (objs s1)"
    using le by (simp add: s1_def length_alist_update)
  have 5: "list_all id_typed (objs s1)"
    using it idt by (simp add: s1_def id_typed_def node k_def)
  have 6: "parent_resolves s1"
    unfolding parent_resolves_def list_all_iff
  proof
    fix b assume "b \<in> set (getAllNodes s1)"
    then consider "b = a" | "b \<in> set (getAllNodes s)" using all1 by blast
    then show "case parentId (objs s1 ! b) of None \<Rightarrow> True
       | Some p \<Rightarrow> (case getNode p s1 of None \<Rightarrow> False
                    | Some b' \<Rightarrow> node_type (objs s1 ! b') = TPhrase)"
    proof cases
      case 1
      then show ?thesis by (simp add: new_obj node)
    next
      case 2
      then have b: "objs s1 ! b = objs s ! b" by (simp add: old_obj old_valid)
      show ?thesis
      proof (cases "parentId (objs s ! b)")
        case None
        then show ?thesis by (simp add: b)
      next
        case (Some p)
        with pr 2 obtain b' where g: "getNode p s = Some b'"
          and ty: "node_type (objs s ! b') = TPhrase"
          by (auto simp: parent_resolves_def list_all_iff split: option.splits)
        from getNode_valid [OF rv g] have b': "b' < a" by (simp add: a_def)
        show ?thesis
        proof (cases "p = k")
          case False
          with Some g ty b' show ?thesis by (simp add: b get1 old_obj)
        next
          case True
          from getNode_in_nodes [OF g] ki have "node_id (objs s ! b') = p"
            by (auto simp: list_all_iff)
          moreover from it b' have "id_typed (objs s ! b')"
            by (simp add: list_all_length a_def)
          ultimately have "prefix (type_name TPhrase @ ''_'') k"
            using ty True by (simp add: id_typed_def)
          with idt have "t = TPhrase" by (rule type_of_prefix)
          with Some True show ?thesis by (simp add: b get1 new_obj node)
        qed
      qed
    qed
  qed
  have 7: "parent_related s1" if nd: "no_displaced s1"
  proof -
    from nd le have fresh: "k \<notin> fst ` set (nodes s)" and nd0: "no_displaced s"
      by (auto simp: no_displaced_def s1_def length_alist_update k_def split: if_splits)
    from nd0 pl have pl0: "parent_related s" by simp
    show ?thesis
      unfolding parent_related_def list_all_iff
    proof
      fix b assume "b \<in> set (getAllNodes s1)"
      then consider "b = a" | "b \<in> set (getAllNodes s)" using all1 by blast
      then show "case parentId (objs s1 ! b) of None \<Rightarrow> True
         | Some p \<Rightarrow> (case getNode p s1 of None \<Rightarrow> False
                      | Some b' \<Rightarrow> related (toLowerCase (content (objs s1 ! b')))
                                      (toLowerCase (content (objs s1 ! b))))"
      proof cases
        case 1
        then show ?thesis by (simp add: new_obj node)
      next
        case 2
        then have b: "objs s1 ! b = objs s ! b" by (simp add: old_obj old_valid)
        show ?thesis
        proof (cases "parentId (objs s ! b)")
          case None
          then show ?thesis by (simp add: b)
        next
          case (Some p)
          with pl0 2 obtain b' where g: "getNode p s = Some b'"
            and rel: "related (toLowerCase (content (objs s ! b')))
                        (toLowerCase (content (objs s ! b)))"
            by (auto simp: parent_related_def list_all_iff split: option.splits)
          from getNode_valid [OF rv g] have b': "b' < a" by (simp add: a_def)
          from getNode_in_nodes [OF g] fresh have "p \<noteq> k" by force
          with Some g rel b' show ?thesis by (simp add: b get1 old_obj)
        qed
      qed
    qed
  qed
  from 1 2 3 4 5 6 7 show ?thesis by (simp add: graph_inv_def)
qed

lemma graph_inv_createNode:
  assumes inv: "graph_inv s"
  shows "graph_inv (snd (createNode c t None s))"
proof (cases "findNodeByContent c s")
  case (Some a)
  have "graph_inv (tick 1 (update_obj a
          (\<lambda>n. n\<lparr> usageWeight := usageWeight n + 1, lastUsedAt := dateNow s \<rparr>) s))"
    by (simp add: graph_inv_tick graph_inv_update_obj inv)
  with Some show ?thesis by (simp add: createNode_def)
next
  case None
  define node where "node = \<lparr> node_id = generateId c t (clock s (ticks s)),
                 content = c, node_type = t,
                 lengthWeight = calculateLengthWeight c,
                 charIndexWeight = calculateCharIndexWeight c,
                 stabilityWeight = calculateInitialStabilityWeight,
                 usageWeight = calculateInitialUsageWeight,
                 curvatureSignature = calculateCurvatureSignature c,
                 fieldValue = field_u (fieldState s),
                 parentId = None, childIds = [], linkStrengths = [],
                 createdAt = clock s (ticks s + 1), lastUsedAt = clock s (ticks s + 2) \<rparr>"
  have "graph_inv (s\<lparr> objs := objs s @ [node],
                      nodes := AList.update (node_id node) (length (objs s)) (nodes s) \<rparr>)"
    by (rule graph_inv_createNode_new [OF inv]) (simp_all add: node_def)
  then have "graph_inv (tick 3 (s\<lparr> objs := objs s @ [node],
                      nodes := AList.update (node_id node) (length (objs s)) (nodes s) \<rparr>))"
    by (simp add: graph_inv_tick)
  moreover have "snd (createNode c t None s) = tick 3 (s\<lparr> objs := objs s @ [node],
                      nodes := AList.update (node_id node) (length (objs s)) (nodes s) \<rparr>)"
    unfolding createNode_def None node_def by (simp add: Let_def truthy_def)
  ultimately show ?thesis by simp
qed

lemma nth_update_obj:
  "objs (update_obj a f s) ! b = (if b = a \<and> a < length (objs s) then f (objs s ! a) else objs s ! b)"
  by (cases "a < length (objs s)"; cases "b = a") (simp_all add: update_obj_def list_update_beyond)

lemma createEdge_keeps [simp]:
  "parentId (objs (createEdge f t sq s) ! b) = parentId (objs s ! b)"
  "node_id (objs (createEdge f t sq s) ! b) = node_id (objs s ! b)"
  "content (objs (createEdge f t sq s) ! b) = content (objs s ! b)"
  "node_type (objs (createEdge f t sq s) ! b) = node_type (objs s ! b)"
  "childIds (objs (createEdge f t sq s) ! b) = childIds (objs s ! b)"
  by (simp_all add: field_createEdge)

lemma parenthood_step_keeps [simp]:
  "node_id (objs (parenthood_step np ex s) ! b) = node_id (objs s ! b)"
  "content (objs (parenthood_step np ex s) ! b) = content (objs s ! b)"
  "node_type (objs (parenthood_step np ex s) ! b) = node_type (objs s ! b)"
  by (simp_all add: field_parenthood_step)

lemma parenthood_step_parentId:
  "parentId (objs (parenthood_step np ex s) ! b) = parentId (objs s ! b)
   \<or> (b = np
      \<and> parentId (objs (parenthood_step np ex s) ! b) = Some (node_id (objs s ! ex))
      \<and> related (toLowerCase (content (objs s ! ex))) (toLowerCase (content (objs s ! np))))"
  unfolding parenthood_step_def Let_def
  by (auto simp: nth_update_obj related_def split: if_splits)

lemma getNode_of_stored:
  assumes "graph_inv s" and "ex \<in> set (getAllNodes s)"
  shows "getNode (node_id (objs s ! ex)) s = Some ex"
proof -
  from assms(2) obtain k where k: "(k, ex) \<in> set (nodes s)"
    by (auto simp: getAllNodes_def)
  with assms(1) have "node_id (objs s ! ex) = k"
    by (auto simp: graph_inv_def list_all_iff)
  moreover from assms(1) k have "map_of (nodes s) k = Some ex"
    by (simp add: graph_inv_def)
  ultimately show ?thesis by (simp add: getNode_def)
qed

lemma graph_inv_parenthood_step:
  assumes inv: "graph_inv s" and ex: "ex \<in> set (getPhraseNodes s)"
  shows "graph_inv (parenthood_step np ex s)"
proof -
  let ?s = "parenthood_step np ex s"
  from ex have ex_all: "ex \<in> set (getAllNodes s)" and ex_ty: "node_type (objs s ! ex) = TPhrase"
    by (simp_all add: getPhraseNodes_def)
  from getNode_of_stored [OF inv ex_all]
  have gex: "getNode (node_id (objs s ! ex)) s = Some ex" .
  from inv have pr: "parent_resolves s" and pl: "no_displaced s \<longrightarrow> parent_related s"
    by (simp_all add: graph_inv_def)
  have "list_all id_typed (objs ?s) = list_all id_typed (objs s)"
    by (simp add: list_all_length id_typed_def)
  with inv have basics: "refs_valid ?s" "distinct (map fst (nodes ?s))"
    "list_all (\<lambda>(k, a). node_id (objs ?s ! a) = k) (nodes ?s)"
    "length (nodes ?s) \<le> length (objs ?s)" "list_all id_typed (objs ?s)"
    by (simp_all add: graph_inv_def)
  have 6: "parent_resolves ?s"
    unfolding parent_resolves_def list_all_iff
  proof
    fix a assume a: "a \<in> set (getAllNodes ?s)"
    from parenthood_step_parentId [of np ex s a]
    show "case parentId (objs ?s ! a) of None \<Rightarrow> True
       | Some p \<Rightarrow> (case getNode p ?s of None \<Rightarrow> False
                    | Some b \<Rightarrow> node_type (objs ?s ! b) = TPhrase)"
    proof
      assume "parentId (objs ?s ! a) = parentId (objs s ! a)"
      with pr a show ?thesis
        by (simp add: parent_resolves_def list_all_iff cong: option.case_cong)
    next
      assume "a = np \<and> parentId (objs ?s ! a) = Some (node_id (objs s ! ex))
        \<and> related (toLowerCase (content (objs s ! ex))) (toLowerCase (content (objs s ! np)))"
      with gex ex_ty show ?thesis by clarsimp
    qed
  qed
  have 7: "parent_related ?s" if "no_displaced ?s"
  proof -
    from that have "no_displaced s" by (simp add: no_displaced_def)
    with pl have pl0: "parent_related s" by simp
    show ?thesis
      unfolding parent_related_def list_all_iff
    proof
      fix a assume a: "a \<in> set (getAllNodes ?s)"
      from parenthood_step_parentId [of np ex s a]
      show "case parentId (objs ?s ! a) of None \<Rightarrow> True
         | Some p \<Rightarrow> (case getNode p ?s of None \<Rightarrow> False
                      | Some b \<Rightarrow> related (toLowerCase (content (objs ?s ! b)))
                                     (toLowerCase (content (objs ?s ! a))))"
      proof
        assume "parentId (objs ?s ! a) = parentId (objs s ! a)"
        with pl0 a show ?thesis
          by (simp add: parent_related_def list_all_iff cong: option.case_cong)
      next
        assume "a = np \<and> parentId (objs ?s ! a) = Some (node_id (objs s ! ex))
          \<and> related (toLowerCase (content (objs s ! ex))) (toLowerCase (content (objs s ! np)))"
        with gex show ?thesis by clarsimp
      qed
    qed
  qed
  from basics 6 7 show ?thesis by (simp add: graph_inv_def)
qed

lemma graph_inv_preserved: "preserved graph_inv"
  unfolding preserved_def
proof (intro conjI allI impI)
  fix s assume "graph_inv s"
  then show "refs_valid s" by (simp add: graph_inv_def)
next
  fix s c t assume "graph_inv s"
  then show "graph_inv (snd (createNode c t None s))" by (rule graph_inv_createNode)
next
  fix s f t sq assume "graph_inv s"
  then show "graph_inv (createEdge f t sq s)" by (simp add: graph_inv_createEdge)
next
  fix s np ex assume "graph_inv s" and "ex \<in> set (getPhraseNodes s)"
  then show "graph_inv (parenthood_step np ex s)" by (rule graph_inv_parenthood_step)
next
  fix s cs h a assume "graph_inv s"
  then show "graph_inv (evolve_step cs h a s)" by (simp add: graph_inv_evolve_step)
next
  fix s a assume "graph_inv s"
  then show "graph_inv (reinforce_node a s)" by (simp add: graph_inv_reinforce_node)
next
  fix s k assume "graph_inv s"
  then show "graph_inv (tick k s)" by (simp add: graph_inv_tick)
next
  fix s :: MemoryStore
  show "graph_inv (clear s)" by (rule graph_inv_clear)
qed

text \<open>What every run keeps: the parent reference of a node, if present, is the key of a phrase
  node of the store; and as long as no node was displaced from the map, the lower-cased
  contents of the node and of that phrase differ and one of them contains the other. Nothing
  says which of the two is the longer one.\<close>

theorem parent_reference_invariant:
  assumes "run ops (new_llm clk t) = Some l"
  shows "parent_resolves (store l) \<and> (no_displaced (store l) \<longrightarrow> parent_related (store l))"
proof -
  have "graph_inv (store (new_llm clk t))"
    by (simp add: new_llm_def new_store_def graph_inv_def refs_valid_def parent_resolves_def
        parent_related_def getAllNodes_def)
  then have "graph_inv (store l)"
    by (rule run_preserved [OF graph_inv_preserved _ assms])
  then show ?thesis by (simp add: graph_inv_def)
qed

subsection \<open>The skeleton of a store\<close>

text \<open>The graph builder reads none of the values that the skeleton erases, so a run can be
  followed on skeletons.\<close>

lemma nth_beyond: "length xs \<le> n \<Longrightarrow> xs ! n = [] ! (n - length xs)"
proof (induction xs arbitrary: n)
  case Nil
  then show ?case by simp
next
  case (Cons x xs)
  then obtain m where "n = Suc m" by (cases n) auto
  with Cons show ?case by simp
qed

lemma nth_map_total: "map e xs ! a = (if a < length xs then e (xs ! a) else xs ! a)"
  using nth_beyond [of xs a] nth_beyond [of "map e xs" a] by simp

lemma skeleton_frame [simp]:
  "nodes (skeleton s) = nodes s" "edges (skeleton s) = edges s"
  "clock (skeleton s) = clock s" "ticks (skeleton s) = ticks s"
  "length (objs (skeleton s)) = length (objs s)"
  "fieldState (skeleton s) = dead_field" "stabilityHistory (skeleton s) = []"
  "getAllNodes (skeleton s) = getAllNodes s" "getNode i (skeleton s) = getNode i s"
  by (simp_all add: skeleton_def getAllNodes_def getNode_def)

lemma field_skeleton:
  "(\<And>n. F (skeleton_node n) = F n) \<Longrightarrow> F (objs (skeleton s) ! b) = F (objs s ! b)"
  by (simp add: skeleton_def nth_map_total)

lemma skeleton_keeps [simp]:
  "node_id (objs (skeleton s) ! b) = node_id (objs s ! b)"
  "content (objs (skeleton s) ! b) = content (objs s ! b)"
  "node_type (objs (skeleton s) ! b) = node_type (objs s ! b)"
  "parentId (objs (skeleton s) ! b) = parentId (objs s ! b)"
  "childIds (objs (skeleton s) ! b) = childIds (objs s ! b)"
  "curvatureSignature (objs (skeleton s) ! b) = curvatureSignature (objs s ! b)"
  by (simp_all add: field_skeleton skeleton_node_def)

lemma skeleton_idem [simp]: "skeleton (skeleton s) = skeleton s"
  by (simp add: skeleton_def skeleton_node_def)

lemma skeleton_eqI:
  "nodes s1 = nodes s2 \<Longrightarrow> edges s1 = edges s2 \<Longrightarrow> clock s1 = clock s2 \<Longrightarrow> ticks s1 = ticks s2
   \<Longrightarrow> map skeleton_node (objs s1) = map skeleton_node (objs s2)
   \<Longrightarrow> skeleton s1 = skeleton s2"
  by (cases s1; cases s2) (simp add: skeleton_def)

text \<open>An update absorbed by the skeleton, and one that commutes with it.\<close>

lemma skeleton_update_obj_absorb:
  assumes "\<And>n. skeleton_node (g n) = skeleton_node n"
  shows "skeleton (update_obj a g s) = skeleton s"
proof -
  have "map skeleton_node ((objs s)[a := g (objs s ! a)]) = map skeleton_node (objs s)"
    by (cases "a < length (objs s)") (simp_all add: map_update assms list_update_beyond
        list_update_same_conv)
  then show ?thesis by (simp add: skeleton_def update_obj_def)
qed

lemma skeleton_update_obj_commute:
  assumes "\<And>n. skeleton_node (g n) = g (skeleton_node n)"
  shows "skeleton (update_obj a g s) = update_obj a g (skeleton s)"
proof -
  have "map skeleton_node ((objs s)[a := g (objs s ! a)])
      = (map skeleton_node (objs s))[a := g (map skeleton_node (objs s) ! a)]"
    by (cases "a < length (objs s)") (simp_all add: map_update assms list_update_beyond)
  then show ?thesis by (simp add: skeleton_def update_obj_def)
qed

lemma skeleton_tick: "skeleton (tick k s) = tick k (skeleton s)"
  by (simp add: skeleton_def tick_def)

lemma skeleton_evolve_step: "skeleton (evolve_step cs h a s) = skeleton s"
proof -
  have "skeleton (updateFieldState ns s) = skeleton s" for ns
    by (simp add: skeleton_def updateFieldState_def Let_def)
  moreover have "skeleton (updateNodeFieldValue i v s') = skeleton s'" for i v s'
    by (simp add: updateNodeFieldValue_def skeleton_update_obj_absorb skeleton_node_def
        split: option.split)
  ultimately show ?thesis by (simp add: evolve_step_def Let_def)
qed

lemma skeleton_evolve_fold: "skeleton (fold (evolve_step cs h) ns s) = skeleton s"
  by (induction ns arbitrary: s) (simp_all add: skeleton_evolve_step)

lemma skeleton_reinforce_node: "skeleton (reinforce_node a s) = skeleton s"
  by (simp add: reinforce_node_def skeleton_update_obj_absorb skeleton_node_def split: option.split)

lemma skeleton_reinforce_fold: "skeleton (fold reinforce_node ns s) = skeleton s"
  by (induction ns arbitrary: s) (simp_all add: skeleton_reinforce_node)

lemma skeleton_createEdge: "skeleton (createEdge f t sq s) = createEdge f t sq (skeleton s)"
proof -
  have 1: "skeleton (s\<lparr> edges := es \<rparr>) = (skeleton s)\<lparr> edges := es \<rparr>" for es
    by (simp add: skeleton_def)
  have 2: "skeleton (update_obj a (\<lambda>n. n\<lparr> linkStrengths := h (linkStrengths n) \<rparr>) s')
         = update_obj a (\<lambda>n. n\<lparr> linkStrengths := h (linkStrengths n) \<rparr>) (skeleton s')" for a h s'
    by (rule skeleton_update_obj_commute) (simp add: skeleton_node_def)
  show ?thesis
    unfolding createEdge_def Let_def
    by (simp add: 1 2 split: option.split cong: option.case_cong)
qed

lemma skeleton_parenthood_step:
  "skeleton (parenthood_step np ex s) = parenthood_step np ex (skeleton s)"
proof -
  have 1: "skeleton (update_obj a (\<lambda>n. n\<lparr> parentId := p \<rparr>) s')
         = update_obj a (\<lambda>n. n\<lparr> parentId := p \<rparr>) (skeleton s')" for a p s'
    by (rule skeleton_update_obj_commute) (simp add: skeleton_node_def)
  have 2: "skeleton (update_obj a (\<lambda>n. n\<lparr> childIds := childIds n @ c \<rparr>) s')
         = update_obj a (\<lambda>n. n\<lparr> childIds := childIds n @ c \<rparr>) (skeleton s')" for a c s'
    by (rule skeleton_update_obj_commute) (simp add: skeleton_node_def)
  define c where "c = toLowerCase (content (objs s ! np))"
  define ec where "ec = toLowerCase (content (objs s ! ex))"
  define A where "A = (\<lambda>s. if str_includes c ec \<and> c \<noteq> ec
        then (if \<not> truthy (parentId (objs s ! np))
              then (if (case getNode [] s of None \<Rightarrow> True
                        | Some cp \<Rightarrow> length ec > length (content (objs s ! cp)))
                    then createEdge (node_id (objs s ! ex)) (node_id (objs s ! np)) False
                           (update_obj ex
                              (\<lambda>n. n\<lparr> childIds := childIds n @ [node_id (objs s ! np)] \<rparr>)
                              (update_obj np
                                 (\<lambda>n. n\<lparr> parentId := Some (node_id (objs s ! ex)) \<rparr>) s))
                    else s)
              else s)
        else s)"
  define B where "B = (\<lambda>s1. if str_includes ec c \<and> c \<noteq> ec
        then (if node_id (objs s1 ! np) \<notin> set (childIds (objs s1 ! ex))
              then createEdge (node_id (objs s1 ! ex)) (node_id (objs s1 ! np)) False
                     (update_obj np
                        (\<lambda>n. n\<lparr> parentId := Some (node_id (objs s1 ! ex)) \<rparr>)
                        (update_obj ex
                           (\<lambda>n. n\<lparr> childIds := childIds n @ [node_id (objs s1 ! np)] \<rparr>) s1))
              else s1)
        else s1)"
  have ps: "parenthood_step np ex s' =
      (if node_id (objs s' ! ex) = node_id (objs s' ! np) then s' else B (A s'))"
    if "toLowerCase (content (objs s' ! np)) = c" "toLowerCase (content (objs s' ! ex)) = ec" for s'
    unfolding parenthood_step_def Let_def A_def B_def that by simp
  have A: "skeleton (A s') = A (skeleton s')" for s'
    unfolding A_def by (simp add: 1 2 skeleton_createEdge cong: option.case_cong)
  have B: "skeleton (B s') = B (skeleton s')" for s'
    unfolding B_def by (simp add: 1 2 skeleton_createEdge)
  show ?thesis
    by (simp add: ps [of s] ps [of "skeleton s"] c_def ec_def A B)
qed

lemma getPhraseNodes_skeleton [simp]: "getPhraseNodes (skeleton s) = getPhraseNodes s"
  by (simp add: getPhraseNodes_def)

lemma skeleton_parenthood_fold:
  "skeleton (fold (parenthood_step np) xs s) = fold (parenthood_step np) xs (skeleton s)"
  by (induction xs arbitrary: s) (simp_all add: skeleton_parenthood_step)

lemma skeleton_establishParenthood:
  "skeleton (establishParenthood np s) = establishParenthood np (skeleton s)"
  by (simp add: establishParenthood_def skeleton_parenthood_fold)

lemma findNodeByContent_skeleton [simp]: "findNodeByContent c (skeleton s) = findNodeByContent c s"
  by (simp add: findNodeByContent_def)

lemma skeleton_createNode:
  "fst (createNode c t None (skeleton s)) = fst (createNode c t None s)
   \<and> skeleton (snd (createNode c t None (skeleton s))) = skeleton (snd (createNode c t None s))"
proof (cases "findNodeByContent c s")
  case (Some a)
  then show ?thesis
    by (simp add: createNode_def skeleton_tick skeleton_update_obj_absorb skeleton_node_def)
next
  case None
  then show ?thesis
    by (simp add: createNode_def Let_def truthy_def skeleton_tick)
       (simp add: skeleton_def skeleton_node_def tick_def dead_field_def)
qed

lemma token_node_skeleton [simp]: "token_node tok (skeleton s) = token_node tok s"
  by (simp add: token_node_def skeleton_createNode)

lemma skeleton_token_state:
  "skeleton (token_state ph tok prev (skeleton s)) = skeleton (token_state ph tok prev s)"
proof -
  let ?ty = "if isWord tok then TWord else TPunctuation"
  have n: "node_id (objs (snd (createNode tok ?ty None (skeleton s))) ! b)
         = node_id (objs (snd (createNode tok ?ty None s)) ! b)" for b
    using skeleton_keeps(1) [of "snd (createNode tok ?ty None (skeleton s))" b]
      skeleton_keeps(1) [of "snd (createNode tok ?ty None s)" b]
    by (simp only: skeleton_createNode)
  show ?thesis
    by (cases prev)
       (simp_all add: token_state_def Let_def skeleton_createEdge n skeleton_createNode
          del: createEdge_frame)
qed

lemma skeleton_process_tokens:
  "fst (process_tokens ph toks prev created (skeleton s)) = fst (process_tokens ph toks prev created s)
   \<and> skeleton (snd (process_tokens ph toks prev created (skeleton s)))
     = skeleton (snd (process_tokens ph toks prev created s))"
proof (induction toks arbitrary: prev created s)
  case Nil
  show ?case by simp
next
  case (Cons tok toks)
  from Cons.IH [of "Some (token_node tok s)" "created @ [token_node tok s]" "token_state ph tok prev (skeleton s)"]
    Cons.IH [of "Some (token_node tok s)" "created @ [token_node tok s]" "token_state ph tok prev s"]
  show ?case
    unfolding process_tokens_Cons by (simp add: skeleton_token_state)
qed

lemma skeleton_processInput:
  "fst (processInput x (skeleton s)) = fst (processInput x s)
   \<and> skeleton (snd (processInput x (skeleton s))) = skeleton (snd (processInput x s))"
proof (cases "trim x = []")
  case True
  then show ?thesis by (simp add: processInput_def)
next
  case False
  define ph where "ph = fst (createNode (trim x) TPhrase None s)"
  define s1 where "s1 = snd (createNode (trim x) TPhrase None s)"
  define s1' where "s1' = snd (createNode (trim x) TPhrase None (skeleton s))"
  have ph: "fst (createNode (trim x) TPhrase None (skeleton s)) = ph"
    and s1: "skeleton s1' = skeleton s1"
    by (simp_all add: ph_def s1_def s1'_def skeleton_createNode)
  have a: "fst (process_tokens ph toks None cr s1') = fst (process_tokens ph toks None cr s1)" for toks cr
    using skeleton_process_tokens [of ph toks None cr s1'] skeleton_process_tokens [of ph toks None cr s1]
    by (simp add: s1)
  have b: "skeleton (snd (process_tokens ph toks None cr s1'))
         = skeleton (snd (process_tokens ph toks None cr s1))" for toks cr
    using skeleton_process_tokens [of ph toks None cr s1'] skeleton_process_tokens [of ph toks None cr s1]
    by (simp add: s1)
  from False show ?thesis
    by (simp add: processInput_def Let_def split_beta ph ph_def [symmetric] s1_def [symmetric]
        s1'_def [symmetric] a skeleton_establishParenthood b)
qed

lemma skeleton_evolveField: "skeleton (evolveField x s) = skeleton (snd (processInput x (skeleton s)))"
  by (simp add: evolveField_def Let_def split_beta skeleton_evolve_fold skeleton_processInput)

subsection \<open>One learned pair\<close>

lemmas eval_skel = eval_store eval_graph skeleton_def skeleton_node_def

lemma stage_skel1:
  "(case processInput ''ab'' (new_store (\<lambda>n. n) 0) of (ns, s) \<Rightarrow> (ns, skeleton s))
     = ([0, 0], skel1)"
  by (simp add: eval_skel skel1_def)

lemma stage_skel2:
  "(case processInput ''a'' skel1 of (ns, s) \<Rightarrow> (ns, skeleton s))
     = ([1, 1], skel2)"
  by (simp add: eval_skel skel2_def skel1_def)

lemma stage_skel3:
  "skeleton (createEdge ''phrase_ab_0'' ''phrase_a_4'' True skel2)
     = skel3"
  by (simp add: eval_skel skel3_def skel2_def)

lemma stage_skel4:
  "(case processInput ''ab'' skel3 of (ns, s) \<Rightarrow> (ns, skeleton s))
     = ([0, 0], skel4)"
  by (simp add: eval_skel skel4_def skel3_def)

lemma stage_skel5:
  "(case processInput ''a'' skel4 of (ns, s) \<Rightarrow> (ns, skeleton s))
     = ([1, 1], skel5)"
  by (simp add: eval_skel skel5_def skel4_def)

lemma skeleton_learnFrom:
  "skeleton (store (learnFrom ''ab'' ''a'' (new_llm (\<lambda>n. n) 0))) = tick 1 skel5"
proof -
  define s0 where "s0 = new_store (\<lambda>n. n) 0"
  define s1 where "s1 = snd (processInput ''ab'' s0)"
  define s2 where "s2 = snd (processInput ''a'' s1)"
  define s3 where "s3 = createEdge ''phrase_ab_0'' ''phrase_a_4'' True s2"
  define s4 where "s4 = evolveField ''ab'' s3"
  define s5 where "s5 = evolveField ''a'' s4"
  have n1: "fst (processInput ''ab'' s0) = [0, 0]" and k1: "skeleton s1 = skel1"
    using stage_skel1 by (simp_all add: split_beta s0_def s1_def)
  have "fst (processInput ''a'' s1) = fst (processInput ''a'' (skeleton s1))"
    "skeleton s2 = skeleton (snd (processInput ''a'' (skeleton s1)))"
    by (simp_all add: skeleton_processInput s2_def)
  then have n2: "fst (processInput ''a'' s1) = [1, 1]" and k2: "skeleton s2 = skel2"
    using stage_skel2 by (simp_all add: split_beta k1)
  have t2: "node_type (objs s2 ! 0) = TPhrase" "node_type (objs s2 ! 1) = TPhrase"
    "node_id (objs s2 ! 0) = ''phrase_ab_0''" "node_id (objs s2 ! 1) = ''phrase_a_4''"
    using skeleton_keeps(1,3) [of s2 0] skeleton_keeps(1,3) [of s2 1]
    by (simp_all add: k2 skel2_def)
  have p: "processTrainingPair ''ab'' ''a'' s0 = s3"
    using n1 n2 t2 by (simp add: processTrainingPair_def split_beta s1_def [symmetric]
        s2_def [symmetric] s3_def)
  have "skeleton s3 = skeleton (createEdge ''phrase_ab_0'' ''phrase_a_4'' True (skeleton s2))"
    by (simp add: s3_def skeleton_createEdge [symmetric])
  then have k3: "skeleton s3 = skel3"
    using stage_skel3 by (simp add: k2)
  have k4: "skeleton s4 = skel4"
    using stage_skel4 by (simp add: s4_def skeleton_evolveField k3 split_beta)
  have k5: "skeleton s5 = skel5"
    using stage_skel5 by (simp add: s5_def skeleton_evolveField k4 split_beta)
  have "store (learnFrom ''ab'' ''a'' (new_llm (\<lambda>n. n) 0)) = tick 1 (reinforceNodes ''ab'' ''a'' s5)"
    by (simp add: learnFrom_def Let_def new_llm_def p [unfolded s0_def] s4_def s5_def)
  then show ?thesis
    by (simp add: skeleton_tick reinforceNodes_def Let_def skeleton_reinforce_fold k5)
qed

lemma learnFrom_ab_a:
  fixes s :: MemoryStore
  defines "s \<equiv> store (learnFrom ''ab'' ''a'' (new_llm (\<lambda>n. n) 0))"
  shows "nodes s = [(''phrase_ab_0'', 0), (''phrase_a_4'', 1)]"
    and "length (objs s) = 2"
    and "content (objs s ! 0) = ''ab''" and "content (objs s ! Suc 0) = ''a''"
    and "node_type (objs s ! 0) = TPhrase"
    and "parentId (objs s ! Suc 0) = Some ''phrase_ab_0''"
proof -
  have k: "skeleton s = tick 1 skel5"
    unfolding s_def by (rule skeleton_learnFrom)
  show "nodes s = [(''phrase_ab_0'', 0), (''phrase_a_4'', 1)]"
    using skeleton_frame(1) [of s] by (simp add: k tick_def skel5_def)
  show "length (objs s) = 2"
    using skeleton_frame(5) [of s] by (simp add: k tick_def skel5_def)
  show "content (objs s ! 0) = ''ab''"
    using skeleton_keeps(2) [of s 0] by (simp add: k tick_def skel5_def)
  show "content (objs s ! Suc 0) = ''a''"
    using skeleton_keeps(2) [of s 1] by (simp add: k tick_def skel5_def)
  show "node_type (objs s ! 0) = TPhrase"
    using skeleton_keeps(3) [of s 0] by (simp add: k tick_def skel5_def)
  show "parentId (objs s ! Suc 0) = Some ''phrase_ab_0''"
    using skeleton_keeps(4) [of s 1] by (simp add: k tick_def skel5_def)
qed

theorem parent_reference_invariant_witness:
  "run [LearnFrom ''ab'' ''a''] (new_llm (\<lambda>n. n) 0)
     = Some (learnFrom ''ab'' ''a'' (new_llm (\<lambda>n. n) 0))
   \<and> parent_resolves (store (learnFrom ''ab'' ''a'' (new_llm (\<lambda>n. n) 0)))
   \<and> no_displaced (store (learnFrom ''ab'' ''a'' (new_llm (\<lambda>n. n) 0)))
   \<and> parent_related (store (learnFrom ''ab'' ''a'' (new_llm (\<lambda>n. n) 0)))"
proof -
  have r: "run [LearnFrom ''ab'' ''a''] (new_llm (\<lambda>n. n) 0)
     = Some (learnFrom ''ab'' ''a'' (new_llm (\<lambda>n. n) 0))"
    by simp
  have d: "no_displaced (store (learnFrom ''ab'' ''a'' (new_llm (\<lambda>n. n) 0)))"
    by (simp add: no_displaced_def learnFrom_ab_a)
  from parent_reference_invariant [OF r] d r show ?thesis by blast
qed

text \<open>The parent references of the two phrases point at each other, and no edge of the
  store is sequential.\<close>

lemma learnFrom_ab_a_cycle:
  fixes s :: MemoryStore
  defines "s \<equiv> store (learnFrom ''ab'' ''a'' (new_llm (\<lambda>n. n) 0))"
  shows "parentId (objs s ! 0) = Some ''phrase_a_4''"
    and "node_type (objs s ! Suc 0) = TPhrase"
    and "node_id (objs s ! 0) = ''phrase_ab_0''"
    and "node_id (objs s ! Suc 0) = ''phrase_a_4''"
    and "getSequentialEdges i s = []"
proof -
  have k: "skeleton s = tick 1 skel5"
    unfolding s_def by (rule skeleton_learnFrom)
  show "parentId (objs s ! 0) = Some ''phrase_a_4''"
    using skeleton_keeps(4) [of s 0] by (simp add: k tick_def skel5_def)
  show "node_type (objs s ! Suc 0) = TPhrase"
    using skeleton_keeps(3) [of s 1] by (simp add: k tick_def skel5_def)
  show "node_id (objs s ! 0) = ''phrase_ab_0''"
    using skeleton_keeps(1) [of s 0] by (simp add: k tick_def skel5_def)
  show "node_id (objs s ! Suc 0) = ''phrase_a_4''"
    using skeleton_keeps(1) [of s 1] by (simp add: k tick_def skel5_def)
  have "edges s = edges (skeleton s)" by simp
  then show "getSequentialEdges i s = []"
    by (simp add: k tick_def skel5_def getSequentialEdges_def)
qed

text \<open>On two nodes that are the parent of each other the walk of \<^verbatim>\<open>getFallbackResponse\<close>
  never ends.\<close>

lemma fallback_walk_cycle:
  assumes p: "parentId (objs s ! a) = Some pa" "parentId (objs s ! b) = Some pb"
    and n: "pa \<noteq> []" "pb \<noteq> []"
    and g: "getNode pa s = Some b" "getNode pb s = Some a"
    and c: "current = Some a \<or> current = Some b"
  shows "fallback_walk s current best = None"
proof (rule ccontr)
  assume "fallback_walk s current best \<noteq> None"
  then obtain y where "fallback_walk s current best = Some y" by auto
  then have "\<not> (parentId (objs s ! a) = Some pa \<and> parentId (objs s ! b) = Some pb
                \<and> getNode pa s = Some b \<and> getNode pb s = Some a \<and> pa \<noteq> [] \<and> pb \<noteq> []
                \<and> (current = Some a \<or> current = Some b))"
  proof (induction rule: fallback_walk.raw_induct [rotated, consumes 1, case_names step])
    case (step f s current best y)
    show ?case
    proof
      assume h: "parentId (objs s ! a) = Some pa \<and> parentId (objs s ! b) = Some pb
                \<and> getNode pa s = Some b \<and> getNode pb s = Some a \<and> pa \<noteq> [] \<and> pb \<noteq> []
                \<and> (current = Some a \<or> current = Some b)"
      then consider "current = Some a" | "current = Some b" by blast
      then show False
      proof cases
        case 1
        with step(2) h obtain best1 where "f s (Some b) best1 = Some y"
          by (simp add: truthy_def split: if_splits)
        from step(1) [OF this] h show False by simp
      next
        case 2
        with step(2) h obtain best1 where "f s (Some a) best1 = Some y"
          by (simp add: truthy_def split: if_splits)
        from step(1) [OF this] h show False by simp
      qed
    qed
  qed
  with p n g c show False by simp
qed



subsection \<open>The parent of a phrase\<close>

text \<open>
  C8 fails in the code: after \<^verbatim>\<open>learnFrom('ab', 'a')\<close> on a new engine the node of content
  \<open>''a''\<close> has the phrase of content \<open>''ab''\<close> as its parent, which is longer than
  \<open>''a''\<close> and not contained in it. The second branch of \<^verbatim>\<open>establishParenthood\<close> assigns
  it: an existing phrase that contains the new one becomes its parent, where the first
  branch makes the contained phrase the parent. When \<open>''ab''\<close> is ingested again, the first
  branch makes \<open>''a''\<close> its parent: the two nodes are the parent of each other, and the
  walk along the parent references that \<^verbatim>\<open>getFallbackResponse\<close> starts at \<open>''a''\<close> never
  ends.
\<close>

theorem parent_longer_than_child:
  "(case run [LearnFrom ''ab'' ''a''] (new_llm (\<lambda>n. n) 0) of
      None \<Rightarrow> False
    | Some l \<Rightarrow>
        getNode ''phrase_a_4'' (store l) = Some 1
        \<and> content (objs (store l) ! 1) = ''a''
        \<and> parentId (objs (store l) ! 1) = Some ''phrase_ab_0''
        \<and> getNode ''phrase_ab_0'' (store l) = Some 0
        \<and> node_type (objs (store l) ! 0) = TPhrase
        \<and> content (objs (store l) ! 0) = ''ab''
        \<and> \<not> str_includes (content (objs (store l) ! 1)) (content (objs (store l) ! 0))
        \<and> parentId (objs (store l) ! 0) = Some ''phrase_a_4''
        \<and> fallback_walk (store l) (Some 1) (None, 0) = None)"
proof -
  define s where "s = store (learnFrom ''ab'' ''a'' (new_llm (\<lambda>n. n) 0))"
  note f = learnFrom_ab_a [folded s_def] learnFrom_ab_a_cycle [folded s_def]
  have g: "getNode ''phrase_a_4'' s = Some (Suc 0)" "getNode ''phrase_ab_0'' s = Some 0"
    by (simp_all add: getNode_def f)
  have "fallback_walk s (Some (Suc 0)) (None, 0) = None"
    by (rule fallback_walk_cycle [of s 0 "''phrase_a_4''" "Suc 0" "''phrase_ab_0''"])
       (simp_all add: f g)
  with f g show ?thesis
    by (simp add: s_def [symmetric] str_includes.simps)
qed

subsection \<open>Empty and blank input\<close>




end
